theory Spec2Isabelle
  imports Main "HOL-Library.Word"
begin

section \<open>Go values\<close>

text \<open>
  A Go \<open>string\<close> is a sequence of bytes: \<^typ>\<open>string\<close>, a list of 8-bit characters.
  \<open>int64\<close> and \<open>uint64\<close> are 64-bit words; \<open>*\<close> and \<open>+\<close> wrap around as Go's do;
  \<^const>\<open>sint\<close> reads an \<open>int64\<close>, \<^const>\<open>unat\<close> a \<open>uint64\<close>. Go's \<open>int\<close> is taken at
  its 64-bit width.
\<close>

type_synonym int64 = "64 word"
type_synonym uint64 = "64 word"
type_synonym goint = "64 word"

definition byte :: "char \<Rightarrow> nat" where
  "byte c = of_char c"

section \<open>The library functions \<open>parseSize\<close> calls\<close>

subsection \<open>\<open>strings.TrimSpace\<close>\<close>

text \<open>
  \<open>TrimSpace\<close> removes the leading and the trailing white space runes, as
  \<open>unicode.IsSpace\<close> defines them: the six ASCII ones (tab, line feed, vertical tab, form
  feed, carriage return, space), U+0085 and U+00A0, and U+1680, U+2000 to U+200A, U+2028,
  U+2029, U+202F, U+205F and U+3000. On bytes, a rune is white space exactly when the bytes
  are its UTF-8 encoding; any other byte sequence decodes to a rune that is not.
\<close>

definition isAsciiSpace :: "char \<Rightarrow> bool" where
  "isAsciiSpace c = (byte c \<in> {0x09, 0x0A, 0x0B, 0x0C, 0x0D, 0x20})"

definition isSpace2 :: "string \<Rightarrow> bool" where
  "isSpace2 e = (map byte e \<in> {[0xC2, 0x85], [0xC2, 0xA0]})"

definition isSpace3 :: "string \<Rightarrow> bool" where
  "isSpace3 e =
     (case map byte e of
        [b0, b1, b2] \<Rightarrow>
          (b0 = 0xE1 \<and> b1 = 0x9A \<and> b2 = 0x80) \<or>
          (b0 = 0xE2 \<and> b1 = 0x80 \<and> (0x80 \<le> b2 \<and> b2 \<le> 0x8A \<or> b2 \<in> {0xA8, 0xA9, 0xAF})) \<or>
          (b0 = 0xE2 \<and> b1 = 0x81 \<and> b2 = 0x9F) \<or>
          (b0 = 0xE3 \<and> b1 = 0x80 \<and> b2 = 0x80)
      | _ \<Rightarrow> False)"

text \<open>The width in bytes of the white space rune a string starts with, 0 when it starts
  with none.\<close>

definition leadingSpace :: "string \<Rightarrow> nat" where
  "leadingSpace s =
     (if s = [] then 0
      else if isAsciiSpace (hd s) then 1
      else if isSpace2 (take 2 s) then 2
      else if isSpace3 (take 3 s) then 3
      else 0)"

text \<open>The same for the rune a string ends with.\<close>

definition trailingSpace :: "string \<Rightarrow> nat" where
  "trailingSpace s =
     (if s = [] then 0
      else if isAsciiSpace (last s) then 1
      else if isSpace2 (drop (length s - 2) s) then 2
      else if isSpace3 (drop (length s - 3) s) then 3
      else 0)"

function TrimLeftSpace :: "string \<Rightarrow> string" where
  "TrimLeftSpace s =
     (if leadingSpace s = 0 then s else TrimLeftSpace (drop (leadingSpace s) s))"
  by pat_completeness auto
termination
  by (relation "measure length") (auto simp: leadingSpace_def split: if_splits)

function TrimRightSpace :: "string \<Rightarrow> string" where
  "TrimRightSpace s =
     (if trailingSpace s = 0 then s
      else TrimRightSpace (take (length s - trailingSpace s) s))"
  by pat_completeness auto
termination
  by (relation "measure length") (auto simp: trailingSpace_def split: if_splits)

definition TrimSpace :: "string \<Rightarrow> string" where
  "TrimSpace s = TrimRightSpace (TrimLeftSpace s)"

subsection \<open>\<open>strings.ToUpper\<close>, \<open>HasSuffix\<close>, \<open>TrimSuffix\<close>\<close>

text \<open>
  \<open>ToUpper\<close> has two paths. A string of ASCII bytes only has its letters \<open>a\<close> to \<open>z\<close>
  moved to \<open>A\<close> to \<open>Z\<close>. A string with a byte from 0x80 on goes through
  \<open>strings.Map(unicode.ToUpper, s)\<close>, which depends on the Unicode case tables; that path
  is the parameter \<open>up\<close>.
\<close>

definition upperByte :: "char \<Rightarrow> char" where
  "upperByte c = (if 0x61 \<le> byte c \<and> byte c \<le> 0x7A then char_of (byte c - 0x20) else c)"

definition ToUpper :: "(string \<Rightarrow> string) \<Rightarrow> string \<Rightarrow> string" where
  "ToUpper up s = (if \<forall>c \<in> set s. byte c < 0x80 then map upperByte s else up s)"

definition HasSuffix :: "string \<Rightarrow> string \<Rightarrow> bool" where
  "HasSuffix s suffix =
     (length s \<ge> length suffix \<and> drop (length s - length suffix) s = suffix)"

definition TrimSuffix :: "string \<Rightarrow> string \<Rightarrow> string" where
  "TrimSuffix s suffix =
     (if HasSuffix s suffix then take (length s - length suffix) s else s)"

subsection \<open>\<open>strconv.ParseUint\<close> and \<open>strconv.ParseInt\<close> at base 10, 64 bits\<close>

datatype NumError = ErrSyntax | ErrRange

definition isDigit :: "char \<Rightarrow> bool" where
  "isDigit c = (0x30 \<le> byte c \<and> byte c \<le> 0x39)"

definition digitVal :: "char \<Rightarrow> uint64" where
  "digitVal c = of_nat (byte c - 0x30)"

text \<open>\<open>maxUint64/10 + 1\<close>: the least \<open>n\<close> with \<open>n * 10\<close> beyond 64 bits.\<close>

definition cutoff10 :: uint64 where
  "cutoff10 = 1844674407370955162"

definition maxVal :: uint64 where
  "maxVal = 18446744073709551615"

text \<open>
  The loop of \<open>ParseUint\<close> over the bytes, \<open>n\<close> the value so far. At base 10 a byte that
  is no digit is a syntax error (a letter is a digit value of 10 or more, an underscore is
  accepted at base 0 only). A range error returns at once, before the bytes that follow
  are looked at.
\<close>

fun parseUintLoop :: "uint64 \<Rightarrow> string \<Rightarrow> NumError + uint64" where
  "parseUintLoop n [] = Inr n"
| "parseUintLoop n (c # cs) =
     (if \<not> isDigit c then Inl ErrSyntax
      else if n \<ge> cutoff10 then Inl ErrRange
      else
        let n10 = n * 10; n1 = n10 + digitVal c in
        if n1 < n10 \<or> n1 > maxVal then Inl ErrRange
        else parseUintLoop n1 cs)"

definition ParseUint :: "string \<Rightarrow> NumError + uint64" where
  "ParseUint s = (if s = [] then Inl ErrSyntax else parseUintLoop 0 s)"

text \<open>
  \<open>ParseInt\<close>: an optional sign, then \<open>ParseUint\<close>; the magnitude must be below
  \<open>2^63\<close>, or at most \<open>2^63\<close> after a minus sign.
\<close>

definition ParseInt :: "string \<Rightarrow> NumError + int64" where
  "ParseInt s0 =
     (if s0 = [] then Inl ErrSyntax
      else
        let neg = (hd s0 = CHR ''-'');
            s = (if hd s0 = CHR ''+'' \<or> hd s0 = CHR ''-'' then tl s0 else s0)
        in case ParseUint s of
             Inl ErrSyntax \<Rightarrow> Inl ErrSyntax
           | r \<Rightarrow>
               let un = (case r of Inr u \<Rightarrow> u | Inl _ \<Rightarrow> maxVal);
                   cutoff = (2 ^ 63 :: uint64)
               in if \<not> neg \<and> un \<ge> cutoff then Inl ErrRange
                  else if neg \<and> un > cutoff then Inl ErrRange
                  else Inr (if neg then - un else un))"

section \<open>\<open>parseSize\<close> (main.go)\<close>

text \<open>
  The error of \<open>parseSize\<close> is its message, \<open>invalid size format:\<close> and the string that
  was handed to \<open>ParseInt\<close>. \<open>stripUnit\<close> is the chain of suffix tests: the multiplier
  and what is left of the string.
\<close>

definition stripUnit :: "string \<Rightarrow> int64 \<times> string" where
  "stripUnit sizeStr =
     (if HasSuffix sizeStr ''KB'' then (1024, TrimSuffix sizeStr ''KB'')
      else if HasSuffix sizeStr ''MB'' then (1024 * 1024, TrimSuffix sizeStr ''MB'')
      else if HasSuffix sizeStr ''GB'' then (1024 * 1024 * 1024, TrimSuffix sizeStr ''GB'')
      else (1, sizeStr))"

definition parseSize :: "(string \<Rightarrow> string) \<Rightarrow> string \<Rightarrow> string + int64" where
  "parseSize up sizeStr0 =
     (let (multiplier, sizeStr) = stripUnit (ToUpper up (TrimSpace sizeStr0))
      in case ParseInt sizeStr of
           Inl err \<Rightarrow> Inl (''invalid size format: '' @ sizeStr)
         | Inr size' \<Rightarrow> Inr (size' * multiplier))"

definition numericPart :: "(string \<Rightarrow> string) \<Rightarrow> string \<Rightarrow> string" where
  "numericPart up sizeStr0 = snd (stripUnit (ToUpper up (TrimSpace sizeStr0)))"

definition unitOf :: "(string \<Rightarrow> string) \<Rightarrow> string \<Rightarrow> int64" where
  "unitOf up sizeStr0 = fst (stripUnit (ToUpper up (TrimSpace sizeStr0)))"

subsection \<open>The vocabulary of the claims about \<open>parseSize\<close>\<close>

text \<open>
  The number a string of decimal digits writes, most significant digit first, as a
  natural number (no width): \<open>decimal ''007'' = 7\<close>.
\<close>

fun decAcc :: "nat \<Rightarrow> string \<Rightarrow> nat" where
  "decAcc n [] = n"
| "decAcc n (c # cs) = decAcc (10 * n + (byte c - 0x30)) cs"

definition decimal :: "string \<Rightarrow> nat" where
  "decimal ds = decAcc 0 ds"

text \<open>A non-negative decimal integer: one digit or more, and nothing else.\<close>

definition digits :: "string \<Rightarrow> bool" where
  "digits ds = (ds \<noteq> [] \<and> (\<forall>c \<in> set ds. isDigit c))"

text \<open>A decimal integer: digits after an optional sign; and the integer it writes.\<close>

definition isSign :: "char \<Rightarrow> bool" where
  "isSign c = (c = CHR ''+'' \<or> c = CHR ''-'')"

definition isDecimalInt :: "string \<Rightarrow> bool" where
  "isDecimalInt s = (s \<noteq> [] \<and> digits (if isSign (hd s) then tl s else s))"

definition intVal :: "string \<Rightarrow> int" where
  "intVal s =
     (if s \<noteq> [] \<and> hd s = CHR ''-'' then - int (decimal (tl s))
      else if s \<noteq> [] \<and> hd s = CHR ''+'' then int (decimal (tl s))
      else int (decimal s))"

definition fitsInt64 :: "int \<Rightarrow> bool" where
  "fitsInt64 i = (- (2 ^ 63) \<le> i \<and> i < 2 ^ 63)"

text \<open>White space: a string that \<open>TrimSpace\<close> removes whole.\<close>

definition whiteSpace :: "string \<Rightarrow> bool" where
  "whiteSpace ws = (TrimLeftSpace ws = [])"

text \<open>
  The suffixes of the claim, in any letter case, and the factor each stands for: none for
  1, \<open>KB\<close> for 1024, \<open>MB\<close> for \<open>1024^2\<close>, \<open>GB\<close> for \<open>1024^3\<close>.
\<close>

definition unitMultiplier :: "string \<Rightarrow> nat option" where
  "unitMultiplier sfx =
     (if sfx = [] then Some 1
      else if map upperByte sfx = ''KB'' then Some 1024
      else if map upperByte sfx = ''MB'' then Some (1024 ^ 2)
      else if map upperByte sfx = ''GB'' then Some (1024 ^ 3)
      else None)"

text \<open>A product of integers as a 64-bit signed multiplication leaves it: reduced modulo
  \<open>2^64\<close> into the range from \<open>-2^63\<close>.\<close>

definition wrap64 :: "int \<Rightarrow> int" where
  "wrap64 i = (i + 2 ^ 63) mod 2 ^ 64 - 2 ^ 63"

text \<open>What \<open>ParseInt\<close> makes of the result of \<open>ParseUint\<close>, as a function of its own.\<close>

definition finishInt :: "bool \<Rightarrow> NumError + uint64 \<Rightarrow> NumError + int64" where
  "finishInt neg r =
     (case r of
        Inl ErrSyntax \<Rightarrow> Inl ErrSyntax
      | r \<Rightarrow>
          let un = (case r of Inr u \<Rightarrow> u | Inl _ \<Rightarrow> maxVal);
              cutoff = (2 ^ 63 :: uint64)
          in if \<not> neg \<and> un \<ge> cutoff then Inl ErrRange
             else if neg \<and> un > cutoff then Inl ErrRange
             else Inr (if neg then - un else un))"

text \<open>A plain byte: ASCII and no white space.\<close>

definition plain :: "char \<Rightarrow> bool" where
  "plain c = (byte c < 0x80 \<and> \<not> isAsciiSpace c)"

section \<open>\<open>Configuration\<close>, \<open>DefaultConfiguration\<close> and \<open>main\<close> (main.go)\<close>

record Configuration =
  CacheSize :: int64
  ParallelOps :: goint
  BinaryThreshold :: int64
  VSCodeAPIEnabled :: bool
  DebugMode :: bool
  LogLevel :: string

text \<open>\<open>DefaultConfiguration\<close>, as a function of what \<open>runtime.NumCPU()\<close> returns.\<close>

definition DefaultConfiguration :: "goint \<Rightarrow> Configuration" where
  "DefaultConfiguration cpuCount =
     (let parallelOps = cpuCount * 2;
          parallelOps = (if 16 <s parallelOps then 16 else parallelOps)
      in \<lparr>CacheSize = 100 * 1024 * 1024,
          ParallelOps = parallelOps,
          BinaryThreshold = 1024 * 1024,
          VSCodeAPIEnabled = True,
          DebugMode = False,
          LogLevel = ''info''\<rparr>)"

subsection \<open>The command line\<close>

text \<open>
  What \<open>main\<close> takes from outside the program: the CPU count, the Unicode case mapping
  behind \<open>strings.ToUpper\<close>, and the parser of an integer flag's text
  (\<open>strconv.ParseInt(s, 0, strconv.IntSize)\<close>, with its base prefixes).
\<close>

record Runtime =
  NumCPU :: goint
  unicodeUpper :: "string \<Rightarrow> string"
  atoi :: "string \<Rightarrow> goint option"

text \<open>The variables the eight \<open>flag\<close> definitions of \<open>main\<close> declare.\<close>

record Flags =
  cacheSize :: string
  parallelOps :: goint
  binaryThreshold :: string
  vsCodeAPI :: bool
  debugMode :: bool
  logLevel :: string
  version :: bool
  benchmark :: bool

definition defaultFlags :: "Configuration \<Rightarrow> Flags" where
  "defaultFlags config =
     \<lparr>cacheSize = ''100MB'',
      parallelOps = ParallelOps config,
      binaryThreshold = ''1MB'',
      vsCodeAPI = True,
      debugMode = False,
      logLevel = ''info'',
      version = False,
      benchmark = False\<rparr>"

datatype FlagKind = BoolFlag | ValueFlag

text \<open>The flag set: the names \<open>main\<close> defines, and whether each is boolean.\<close>

definition formal :: "string \<Rightarrow> FlagKind option" where
  "formal name =
     (if name \<in> {''vscode-api'', ''debug'', ''version'', ''bench''} then Some BoolFlag
      else if name \<in> {''cache-size'', ''parallel-ops'', ''binary-threshold'', ''log-level''}
      then Some ValueFlag
      else None)"

definition ParseBool :: "string \<Rightarrow> bool option" where
  "ParseBool str =
     (if str \<in> {''1'', ''t'', ''T'', ''TRUE'', ''true'', ''True''} then Some True
      else if str \<in> {''0'', ''f'', ''F'', ''FALSE'', ''false'', ''False''} then Some False
      else None)"

text \<open>\<open>Value.Set\<close> of the flag of a name: \<open>None\<close> when the text is refused.\<close>

definition setFlag :: "(string \<Rightarrow> goint option) \<Rightarrow> string \<Rightarrow> string \<Rightarrow> Flags \<Rightarrow> Flags option" where
  "setFlag toInt name v f =
     (if name = ''cache-size'' then Some (f\<lparr>cacheSize := v\<rparr>)
      else if name = ''parallel-ops'' then map_option (\<lambda>n. f\<lparr>parallelOps := n\<rparr>) (toInt v)
      else if name = ''binary-threshold'' then Some (f\<lparr>binaryThreshold := v\<rparr>)
      else if name = ''vscode-api'' then map_option (\<lambda>b. f\<lparr>vsCodeAPI := b\<rparr>) (ParseBool v)
      else if name = ''debug'' then map_option (\<lambda>b. f\<lparr>debugMode := b\<rparr>) (ParseBool v)
      else if name = ''log-level'' then Some (f\<lparr>logLevel := v\<rparr>)
      else if name = ''version'' then map_option (\<lambda>b. f\<lparr>version := b\<rparr>) (ParseBool v)
      else if name = ''bench'' then map_option (\<lambda>b. f\<lparr>benchmark := b\<rparr>) (ParseBool v)
      else None)"

datatype FlagError =
    BadFlagSyntax string
  | Help
  | NotDefined string
  | InvalidValue string string
  | NeedsArgument string

text \<open>A flag's text after its dashes, split at the first \<open>=\<close> that is not its first
  byte: the name, and the value when there is one.\<close>

definition splitValue :: "string \<Rightarrow> string \<times> string option" where
  "splitValue name =
     (case name of
        [] \<Rightarrow> ([], None)
      | c # cs \<Rightarrow>
          if CHR ''='' \<in> set cs
          then (c # takeWhile (\<lambda>x. x \<noteq> CHR ''='') cs,
                Some (tl (dropWhile (\<lambda>x. x \<noteq> CHR ''='') cs)))
          else (name, None))"

text \<open>
  \<open>flag.Parse\<close>: \<open>parseOne\<close> until an argument is no flag. Parsing stops at the first
  argument that does not start with a dash or is a single byte, and at \<open>--\<close>; a flag
  that is not boolean takes the next argument as its value when it has none after \<open>=\<close>.
\<close>

fun flagParse :: "(string \<Rightarrow> goint option) \<Rightarrow> Flags \<Rightarrow> string list \<Rightarrow> FlagError + Flags" where
  "flagParse toInt f [] = Inr f"
| "flagParse toInt f (s # args) =
     (if length s < 2 \<or> hd s \<noteq> CHR ''-'' then Inr f
      else if s = ''--'' then Inr f
      else
        let name0 = (if s ! 1 = CHR ''-'' then drop 2 s else drop 1 s) in
        if name0 = [] \<or> hd name0 = CHR ''-'' \<or> hd name0 = CHR ''='' then Inl (BadFlagSyntax s)
        else
          let name = fst (splitValue name0); val = snd (splitValue name0) in
          case formal name of
            None \<Rightarrow>
              if name = ''help'' \<or> name = ''h'' then Inl Help else Inl (NotDefined name)
          | Some BoolFlag \<Rightarrow>
              (let v = (case val of Some v \<Rightarrow> v | None \<Rightarrow> ''true'') in
               case setFlag toInt name v f of
                 None \<Rightarrow> Inl (InvalidValue v name)
               | Some f' \<Rightarrow> flagParse toInt f' args)
          | Some ValueFlag \<Rightarrow>
              (case val of
                 Some v \<Rightarrow>
                   (case setFlag toInt name v f of
                      None \<Rightarrow> Inl (InvalidValue v name)
                    | Some f' \<Rightarrow> flagParse toInt f' args)
               | None \<Rightarrow>
                   (case args of
                      [] \<Rightarrow> Inl (NeedsArgument name)
                    | v # args' \<Rightarrow>
                        (case setFlag toInt name v f of
                           None \<Rightarrow> Inl (InvalidValue v name)
                         | Some f' \<Rightarrow> flagParse toInt f' args'))))"

subsection \<open>\<open>main\<close>, up to the initialisation of the components\<close>

text \<open>
  How a start ends: \<open>flag.Parse\<close> fails and the process exits, the version is printed,
  \<open>log.Fatalf\<close> ends the process with a message, the benchmark runs, or \<open>main\<close> goes
  on to build the cache, the protocol handler and the engine from the configuration and
  to serve.
\<close>

datatype Outcome =
    FlagFailure FlagError
  | ShowVersion
  | Fatal string
  | RunBenchmark Configuration
  | InitComponents Configuration

definition main :: "Runtime \<Rightarrow> string list \<Rightarrow> Outcome" where
  "main rt args =
     (let config = DefaultConfiguration (NumCPU rt) in
      case flagParse (atoi rt) (defaultFlags config) args of
        Inl e \<Rightarrow> FlagFailure e
      | Inr fl \<Rightarrow>
          if version fl then ShowVersion
          else
            case parseSize (unicodeUpper rt) (cacheSize fl) of
              Inl err \<Rightarrow> Fatal (''Invalid cache size: '' @ err)
            | Inr size' \<Rightarrow>
                let config = config\<lparr>CacheSize := size'\<rparr> in
                case parseSize (unicodeUpper rt) (binaryThreshold fl) of
                  Inl err \<Rightarrow> Fatal (''Invalid binary threshold: '' @ err)
                | Inr threshold \<Rightarrow>
                    let config = config\<lparr>BinaryThreshold := threshold,
                                        ParallelOps := parallelOps fl,
                                        VSCodeAPIEnabled := vsCodeAPI fl,
                                        DebugMode := debugMode fl,
                                        LogLevel := logLevel fl\<rparr>
                    in if benchmark fl then RunBenchmark config else InitComponents config)"

text \<open>A runtime for evaluation: 8 CPUs, and the two library parsers left unused.\<close>

definition testRuntime :: Runtime where
  "testRuntime = \<lparr>NumCPU = 8, unicodeUpper = id, atoi = Map.empty\<rparr>"

section \<open>The task scheduler (spec section 4.4)\<close>

text \<open>
  Modelled from the spec: the scheduler of the engine (package \<open>core\<close>, which \<open>main\<close>
  builds with \<open>core.NewUltraFastEngine\<close> from \<open>ParallelOps\<close>) is not among the sources.
  The state is the pool size \<open>ParallelOps\<close>, the bound of the queue, the tasks the workers
  are running and the tasks that wait.
\<close>

record 'task Scheduler =
  poolSize :: nat
  queueBound :: nat
  running :: "'task list"
  waiting :: "'task list"

text \<open>Modelled from the spec: what \<open>submit\<close> of the missing scheduler answers. An
  admitted task is handed to a free worker or queued; \<open>Overloaded\<close> is the fail-fast
  error of the admission control.\<close>

datatype Admission = Started | Queued | Overloaded

text \<open>Modelled from the spec: the missing scheduler as it is built, with idle workers
  and an empty queue.\<close>

definition newScheduler :: "nat \<Rightarrow> nat \<Rightarrow> 'task Scheduler" where
  "newScheduler workers bound =
     \<lparr>poolSize = workers, queueBound = bound, running = [], waiting = []\<rparr>"

text \<open>
  Modelled from the spec: \<open>submit\<close> of the missing scheduler. ``When all workers are busy, new tasks queue up to a
  bounded queue length; beyond that, \<open>submit\<close> fails fast with \<open>Overloaded\<close> rather than
  growing unboundedly.''
\<close>

definition submit :: "'task Scheduler \<Rightarrow> 'task \<Rightarrow> Admission \<times> 'task Scheduler" where
  "submit s t =
     (if length (running s) < poolSize s then (Started, s\<lparr>running := running s @ [t]\<rparr>)
      else if length (waiting s) < queueBound s then (Queued, s\<lparr>waiting := waiting s @ [t]\<rparr>)
      else (Overloaded, s))"

text \<open>
  Modelled from the spec: a worker of the missing scheduler is done with a task (it ran
  to completion, or its cancellation was observed) and takes the next waiting task, if
  there is one. A task that no worker runs finishes nothing.
\<close>

definition finish :: "'task Scheduler \<Rightarrow> 'task \<Rightarrow> 'task Scheduler" where
  "finish s t =
     (if t \<notin> set (running s) then s
      else
        case waiting s of
          [] \<Rightarrow> s\<lparr>running := remove1 t (running s)\<rparr>
        | n # ns \<Rightarrow> s\<lparr>running := remove1 t (running s) @ [n], waiting := ns\<rparr>)"

text \<open>Modelled from the spec: \<open>cancel\<close> of the missing scheduler. A task that still
  waits is taken off the queue; a running task observes its token and ends through
  \<open>finish\<close>.\<close>

definition cancel :: "'task Scheduler \<Rightarrow> 'task \<Rightarrow> 'task Scheduler" where
  "cancel s t = s\<lparr>waiting := removeAll t (waiting s)\<rparr>"

text \<open>The tasks the scheduler holds: running and waiting.\<close>

definition pending :: "'task Scheduler \<Rightarrow> nat" where
  "pending s = length (running s) + length (waiting s)"

text \<open>Submissions one after the other with no worker finishing in between (the workers
  are saturated): the answers in order, and the scheduler after the last.\<close>

fun submitAll :: "'task Scheduler \<Rightarrow> 'task list \<Rightarrow> Admission list \<times> 'task Scheduler" where
  "submitAll s [] = ([], s)"
| "submitAll s (t # ts) =
     (let (a, s') = submit s t; (as, s'') = submitAll s' ts in (a # as, s''))"

text \<open>Any history of the scheduler: submissions, completions and cancellations.\<close>

datatype 'task SchedEvent = Submit 'task | Finish 'task | Cancel 'task

fun schedStep :: "'task Scheduler \<Rightarrow> 'task SchedEvent \<Rightarrow> 'task Scheduler" where
  "schedStep s (Submit t) = snd (submit s t)"
| "schedStep s (Finish t) = finish s t"
| "schedStep s (Cancel t) = cancel s t"

text \<open>The scheduler after a history.\<close>

definition schedRun :: "'task Scheduler \<Rightarrow> 'task SchedEvent list \<Rightarrow> 'task Scheduler" where
  "schedRun s evs = foldl schedStep s evs"

text \<open>The scheduler holds no more than its bounds allow.\<close>

definition schedInv :: "'task Scheduler \<Rightarrow> bool" where
  "schedInv s = (length (running s) \<le> poolSize s \<and> length (waiting s) \<le> queueBound s
                 \<and> (waiting s \<noteq> [] \<longrightarrow> length (running s) = poolSize s))"

text \<open>The submissions the scheduler can still admit.\<close>

definition free :: "'task Scheduler \<Rightarrow> nat" where
  "free s = poolSize s + queueBound s - pending s"

section \<open>The intelligent cache (spec sections 3 and 4.3)\<close>

text \<open>
  Modelled from the spec: the cache (package \<open>cache\<close>, which \<open>main\<close> builds with
  \<open>cache.NewIntelligentCache(config.CacheSize)\<close>) is not among the sources. A file
  identity is the canonical path, the modification time and the size.
\<close>

record FileIdentity =
  idPath :: string
  idMtime :: nat
  idSize :: nat

text \<open>Modelled from the spec: an entry of the missing cache, with its content, its size in bytes, the
  time of the last access, the access count and the pinned flag.\<close>

record CacheEntry =
  identity :: FileIdentity
  content :: string
  entrySize :: nat
  lastAccess :: nat
  accessCount :: nat
  pinned :: bool

text \<open>Modelled from the spec: the state of the missing cache, the capacity budget in
  bytes, the bytes resident and the entries, one for an identity.\<close>

record CacheState =
  capacity :: nat
  totalBytes :: nat
  entries :: "CacheEntry list"

text \<open>Modelled from the spec: what the missing cache reads of the file system, the bytes
  of each file and its modification time.\<close>

record FileSys =
  contents :: "string \<rightharpoonup> string"
  mtimes :: "string \<Rightarrow> nat"

text \<open>Modelled from the spec: the stat of the missing cache, the identity a file has
  now.\<close>

definition statFile :: "FileSys \<Rightarrow> string \<Rightarrow> FileIdentity option" where
  "statFile fs p =
     (case contents fs p of
        None \<Rightarrow> None
      | Some bytes \<Rightarrow> Some \<lparr>idPath = p, idMtime = mtimes fs p, idSize = length bytes\<rparr>)"

text \<open>Modelled from the spec: the missing cache as it is built, empty, with its
  capacity.\<close>

definition newCache :: "nat \<Rightarrow> CacheState" where
  "newCache cap = \<lparr>capacity = cap, totalBytes = 0, entries = []\<rparr>"

text \<open>Modelled from the spec: the entry the missing cache holds for an identity.\<close>

definition lookup :: "CacheState \<Rightarrow> FileIdentity \<Rightarrow> CacheEntry option" where
  "lookup c ident = find (\<lambda>e. identity e = ident) (entries c)"

text \<open>Modelled from the spec: \<open>invalidate\<close> of the missing cache removes the entry of an
  identity whatever its score; on an identity that has no entry it does nothing.\<close>

definition invalidate :: "CacheState \<Rightarrow> FileIdentity \<Rightarrow> CacheState" where
  "invalidate c ident =
     (case lookup c ident of
        None \<Rightarrow> c
      | Some e \<Rightarrow>
          c\<lparr>entries := filter (\<lambda>x. identity x \<noteq> ident) (entries c),
            totalBytes := totalBytes c - entrySize e\<rparr>)"

text \<open>Modelled from the spec: the score of the missing cache,
  \<open>score = accessCount * decay(now - lastAccess)\<close>; \<open>decay\<close>, a decreasing function of
  the age, is a parameter.\<close>

definition score :: "(nat \<Rightarrow> nat) \<Rightarrow> nat \<Rightarrow> CacheEntry \<Rightarrow> nat" where
  "score decay now e = accessCount e * decay (now - lastAccess e)"

text \<open>Modelled from the spec: the entries the missing cache may evict, in ascending
  order of score (entries of one score in the order of the cache); a pinned entry is
  never among them.\<close>

definition candidates :: "(nat \<Rightarrow> nat) \<Rightarrow> nat \<Rightarrow> CacheState \<Rightarrow> CacheEntry list" where
  "candidates decay now c = sort_key (score decay now) (filter (\<lambda>e. \<not> pinned e) (entries c))"

text \<open>Modelled from the spec: the eviction of the missing cache, ``evict entries in
  ascending score order until enough room is freed'', for a new entry of \<open>newSize\<close>
  bytes.\<close>

fun evict :: "nat \<Rightarrow> CacheEntry list \<Rightarrow> CacheState \<Rightarrow> CacheState" where
  "evict newSize [] c = c"
| "evict newSize (v # vs) c =
     (if totalBytes c + newSize \<le> capacity c then c
      else evict newSize vs (invalidate c (identity v)))"

text \<open>
  Modelled from the spec: \<open>put\<close> of the missing cache. An entry larger than the capacity
  is not cached. An
  entry of the same identity is replaced. If \<open>currentBytes + newSize > capacity\<close>, entries
  are evicted, and the new entry is inserted once there is room for it; eviction and
  insertion are one step. The spec does not say what \<open>put\<close> does when the pinned entries
  leave too little room: here the entry is then not inserted.
\<close>

definition put :: "(nat \<Rightarrow> nat) \<Rightarrow> nat \<Rightarrow> CacheState \<Rightarrow> FileIdentity \<Rightarrow> string \<Rightarrow> CacheState" where
  "put decay now c ident bytes =
     (let newSize = length bytes in
      if newSize > capacity c then c
      else
        let c0 = invalidate c ident;
            c1 = (if totalBytes c0 + newSize > capacity c0
                  then evict newSize (candidates decay now c0) c0 else c0)
        in if totalBytes c1 + newSize \<le> capacity c1
           then c1\<lparr>entries := entries c1 @
                      [\<lparr>identity = ident, content = bytes, entrySize = newSize,
                        lastAccess = now, accessCount = 1, pinned = False\<rparr>],
                    totalBytes := totalBytes c1 + newSize\<rparr>
           else c1)"

text \<open>Modelled from the spec: an update of the entry the missing cache holds for an
  identity, in place.\<close>

definition updateEntry :: "(CacheEntry \<Rightarrow> CacheEntry) \<Rightarrow> CacheState \<Rightarrow> FileIdentity \<Rightarrow> CacheState" where
  "updateEntry f c ident =
     c\<lparr>entries := map (\<lambda>x. if identity x = ident then f x else x) (entries c)\<rparr>"

text \<open>Modelled from the spec: what a hit of the missing cache does to the entry: the
  last access is now, and the access count is one more.\<close>

definition touch :: "nat \<Rightarrow> CacheEntry \<Rightarrow> CacheEntry" where
  "touch now e = e\<lparr>lastAccess := now, accessCount := accessCount e + 1\<rparr>"

text \<open>
  Modelled from the spec: \<open>get\<close> of the missing cache stats the file again. With the identity unchanged it is
  a hit, which touches the entry; with another identity, or the file gone, the stale
  entry is invalidated and \<open>get\<close> is a miss.
\<close>

definition get :: "FileSys \<Rightarrow> nat \<Rightarrow> CacheState \<Rightarrow> FileIdentity \<Rightarrow> CacheEntry option \<times> CacheState" where
  "get fs now c ident =
     (case lookup c ident of
        None \<Rightarrow> (None, c)
      | Some e \<Rightarrow>
          if statFile fs (idPath ident) = Some ident
          then (Some (touch now e), updateEntry (touch now) c ident)
          else (None, invalidate c ident))"

text \<open>Modelled from the spec: the pin of the missing cache, set for a write in flight.\<close>

definition pin :: "CacheState \<Rightarrow> FileIdentity \<Rightarrow> CacheState" where
  "pin c ident = updateEntry (\<lambda>e. e\<lparr>pinned := True\<rparr>) c ident"

text \<open>Modelled from the spec: the pin of the missing cache, released.\<close>

definition unpin :: "CacheState \<Rightarrow> FileIdentity \<Rightarrow> CacheState" where
  "unpin c ident = updateEntry (\<lambda>e. e\<lparr>pinned := False\<rparr>) c ident"

text \<open>Modelled from the spec: the two errors of the taxonomy that a path can cause in
  the missing engine.\<close>

datatype AccessError = AccessDenied | NotFound

text \<open>
  Modelled from the spec: a read of the missing engine through the cache. A hit returns
  the cached content; a miss reads the file and populates the cache, except that content
  larger than the capacity is returned without a \<open>put\<close>.
\<close>

definition read :: "(nat \<Rightarrow> nat) \<Rightarrow> FileSys \<Rightarrow> nat \<Rightarrow> CacheState \<Rightarrow> string \<Rightarrow> (AccessError + string) \<times> CacheState" where
  "read decay fs now c p =
     (case statFile fs p of
        None \<Rightarrow> (Inl NotFound, c)
      | Some ident \<Rightarrow>
          (case get fs now c ident of
             (Some e, c') \<Rightarrow> (Inr (content e), c')
           | (None, c') \<Rightarrow>
               (case contents fs p of
                  None \<Rightarrow> (Inl NotFound, c')
                | Some bytes \<Rightarrow>
                    if length bytes > capacity c' then (Inr bytes, c')
                    else (Inr bytes, put decay now c' ident bytes))))"

text \<open>Any history of the cache: each operation with the time and the file system at
  which it happens.\<close>

datatype CacheOp =
    Get FileIdentity
  | Put FileIdentity string
  | Invalidate FileIdentity
  | Pin FileIdentity
  | Unpin FileIdentity
  | Read string

fun cacheStep :: "(nat \<Rightarrow> nat) \<Rightarrow> CacheState \<Rightarrow> FileSys \<times> nat \<times> CacheOp \<Rightarrow> CacheState" where
  "cacheStep decay c (fs, now, Get ident) = snd (get fs now c ident)"
| "cacheStep decay c (fs, now, Put ident bytes) = put decay now c ident bytes"
| "cacheStep decay c (fs, now, Invalidate ident) = invalidate c ident"
| "cacheStep decay c (fs, now, Pin ident) = pin c ident"
| "cacheStep decay c (fs, now, Unpin ident) = unpin c ident"
| "cacheStep decay c (fs, now, Read p) = snd (read decay fs now c p)"

text \<open>The cache after a history.\<close>

definition cacheRun :: "(nat \<Rightarrow> nat) \<Rightarrow> CacheState \<Rightarrow> (FileSys \<times> nat \<times> CacheOp) list \<Rightarrow> CacheState" where
  "cacheRun decay c hist = foldl (cacheStep decay) c hist"

text \<open>The bytes the live entries hold.\<close>

definition liveBytes :: "CacheState \<Rightarrow> nat" where
  "liveBytes c = sum_list (map entrySize (entries c))"

text \<open>The state between operations: the byte count is the sum of the live sizes, the sum
  is within the capacity, and no identity has two entries.\<close>

definition cacheInv :: "CacheState \<Rightarrow> bool" where
  "cacheInv c = (totalBytes c = liveBytes c \<and> liveBytes c \<le> capacity c
                 \<and> distinct (map identity (entries c)))"

text \<open>A file system for evaluation: three files of 4, 6 and 12 bytes.\<close>

definition testFiles :: FileSys where
  "testFiles =
     \<lparr>contents = [''/a'' \<mapsto> ''aaaa'', ''/b'' \<mapsto> ''bbbbbb'', ''/c'' \<mapsto> ''cccccccccccc''],
      mtimes = (\<lambda>p. 1)\<rparr>"

text \<open>A decay for evaluation: linear in the age.\<close>

definition testDecay :: "nat \<Rightarrow> nat" where
  "testDecay age = 100 - age"

section \<open>The safe writer (spec section 4.6)\<close>

text \<open>
  Modelled from the spec: the safe writer of the engine (package \<open>core\<close>) is not among
  the sources. First the steps of its protocol that touch storage: the others work on
  the cache.
\<close>

datatype WriteStep = WriteTemp | CopyBackup | Rename

text \<open>Modelled from the spec: the errors of \<open>writeSafe\<close> of the missing writer,
  \<open>Conflict\<close> when the pin of another write is held, \<open>IOError\<close> with the step that
  failed.\<close>

datatype WriteError = Conflict | IOError WriteStep

text \<open>Modelled from the spec: what the missing writer works on, the files and the cache.\<close>

record Store =
  files :: FileSys
  cache :: CacheState

text \<open>Modelled from the spec: the temporary sibling and the backup location the missing
  writer gives a path. The spec names neither; both are parameters.\<close>

record Naming =
  tempOf :: "string \<Rightarrow> string"
  backupOf :: "string \<Rightarrow> string"

text \<open>Modelled from the spec: for the missing writer the pin of the target is held when
  the target's cache entry is present and pinned.\<close>

definition pinHeld :: "Store \<Rightarrow> string \<Rightarrow> bool" where
  "pinHeld st path =
     (case statFile (files st) path of
        None \<Rightarrow> False
      | Some ident \<Rightarrow> (case lookup (cache st) ident of None \<Rightarrow> False | Some e \<Rightarrow> pinned e))"

text \<open>Modelled from the spec: a step of the missing writer on the cache entry of the
  target, when the target is there.\<close>

definition onTarget :: "(CacheState \<Rightarrow> FileIdentity \<Rightarrow> CacheState) \<Rightarrow> FileSys \<Rightarrow> string \<Rightarrow> CacheState \<Rightarrow> CacheState" where
  "onTarget f fs path c = (case statFile fs path of None \<Rightarrow> c | Some ident \<Rightarrow> f c ident)"

text \<open>Modelled from the spec: the clean-up of the missing writer, ``the temporary file
  is discarded''.\<close>

definition discardTemp :: "Naming \<Rightarrow> string \<Rightarrow> FileSys \<Rightarrow> FileSys" where
  "discardTemp nm path fs = fs\<lparr>contents := (contents fs)(tempOf nm path := None)\<rparr>"

text \<open>
  Modelled from the spec: \<open>writeSafe\<close> of the missing writer. (1) pin the target's cache entry, if present;
  (2) write the content to the temporary sibling; (3) with \<open>backup\<close>, copy the existing
  file to the backup location; (4) rename the temporary file over the target, in one
  step; (5) invalidate the cache entry; (6) unpin. \<open>fails\<close> tells which steps on storage
  fail when they are tried; the steps on the cache cannot fail. After a failure the
  temporary file is discarded and the pin released.
\<close>

definition writeSafe :: "Naming \<Rightarrow> (WriteStep \<Rightarrow> bool) \<Rightarrow> nat \<Rightarrow> Store \<Rightarrow> string \<Rightarrow> string \<Rightarrow> bool
    \<Rightarrow> (WriteError + unit) \<times> Store" where
  "writeSafe nm fails now st path bytes backup =
     (let fs = files st in
      if pinHeld st path then (Inl Conflict, st)
      else
        let c1 = onTarget pin fs path (cache st);
            released = onTarget unpin fs path c1
        in
        if fails WriteTemp
        then (Inl (IOError WriteTemp), \<lparr>files = discardTemp nm path fs, cache = released\<rparr>)
        else
          let fs2 = fs\<lparr>contents := (contents fs)(tempOf nm path \<mapsto> bytes)\<rparr> in
          if backup \<and> contents fs path \<noteq> None \<and> fails CopyBackup
          then (Inl (IOError CopyBackup), \<lparr>files = discardTemp nm path fs2, cache = released\<rparr>)
          else
            let fs3 = (if backup
                       then (case contents fs path of
                               None \<Rightarrow> fs2
                             | Some old \<Rightarrow> fs2\<lparr>contents := (contents fs2)(backupOf nm path \<mapsto> old)\<rparr>)
                       else fs2)
            in
            if fails Rename
            then (Inl (IOError Rename), \<lparr>files = discardTemp nm path fs3, cache = released\<rparr>)
            else
              let fs4 = fs3\<lparr>contents := (contents fs3)(path \<mapsto> bytes, tempOf nm path := None),
                           mtimes := (mtimes fs3)(path := now)\<rparr>;
                  c5 = onTarget invalidate fs path c1;
                  c6 = onTarget unpin fs path c5
              in (Inr (), \<lparr>files = fs4, cache = c6\<rparr>))"

text \<open>A naming for evaluation: the suffixes \<open>.tmp\<close> and \<open>.bak\<close>.\<close>

definition testNaming :: Naming where
  "testNaming = \<lparr>tempOf = (\<lambda>p. p @ ''.tmp''), backupOf = (\<lambda>p. p @ ''.bak'')\<rparr>"

text \<open>The failure of one step and no other.\<close>

definition failsAt :: "WriteStep \<Rightarrow> WriteStep \<Rightarrow> bool" where
  "failsAt x step = (step = x)"

text \<open>A store for evaluation: the three files and an empty cache.\<close>

definition testStore :: Store where
  "testStore = \<lparr>files = testFiles, cache = newCache 10\<rparr>"

section \<open>The path guard (spec section 4.1)\<close>

text \<open>
  Modelled from the spec: the path guard of the engine (package \<open>core\<close>) is not among
  the sources. A path is the list of its segments from the root; the file system tells for
  each path whether a directory, a file or a symbolic link with its target is there.
\<close>

datatype Node = Directory | RegularFile | Symlink string

text \<open>Modelled from the spec: the file system the missing guard resolves against. What a
  name finds is for the file system to say, also where it does not tell the cases of a
  letter apart.\<close>

type_synonym Tree = "string list \<Rightarrow> Node option"

text \<open>Modelled from the spec: the configuration of the missing guard, the allowed directories as
  canonical paths, the case rule of the platform, the directory relative paths start
  from, and the number of symbolic links one resolution follows.\<close>

record Guard =
  allowedDirs :: "string list list"
  caseInsensitive :: bool
  workingDir :: "string list"
  maxLinks :: nat

text \<open>Modelled from the spec: a path in its segments, as the missing guard splits it at
  every separator.\<close>

fun splitPath :: "string \<Rightarrow> string list" where
  "splitPath [] = [[]]"
| "splitPath (c # cs) =
     (if c = CHR ''/'' then [] # splitPath cs
      else (case splitPath cs of [] \<Rightarrow> [[c]] | w # ws \<Rightarrow> (c # w) # ws))"

text \<open>Modelled from the spec: for the missing guard a path from the root starts with the
  separator.\<close>

definition isAbsolute :: "string \<Rightarrow> bool" where
  "isAbsolute p = (p \<noteq> [] \<and> hd p = CHR ''/'')"

text \<open>Modelled from the spec: what the resolution of the missing guard comes to. \<open>Found p\<close>
  is the canonical path of a path that resolves; \<open>Missing p\<close> is the place a path leads to
  when its resolution ``hits a nonexistent path where required''; \<open>TooManyLinks\<close> is a
  resolution given up after \<open>maxLinks\<close> symbolic links, which leads to no place that the
  guard knows.\<close>

datatype Resolution = Found "string list" | Missing "string list" | TooManyLinks

text \<open>Modelled from the spec: the place a resolution of the missing guard ends at, when
  it ends.\<close>

definition place :: "Resolution \<Rightarrow> string list option" where
  "place r = (case r of Found p \<Rightarrow> Some p | Missing p \<Rightarrow> Some p | TooManyLinks \<Rightarrow> None)"

text \<open>Modelled from the spec: where the segments still to come lead from a path when
  nothing of them is in the file system, so that the missing guard can tell an escape
  from a path that is only missing: an empty segment and \<open>.\<close> stay, \<open>..\<close> goes to the
  parent, any other segment goes down.\<close>

fun lexical :: "string list \<Rightarrow> string list \<Rightarrow> string list" where
  "lexical cur [] = cur"
| "lexical cur (s # rest) =
     (if s = [] \<or> s = ''.'' then lexical cur rest
      else if s = ''..'' then lexical (butlast cur) rest
      else lexical (cur @ [s]) rest)"

text \<open>
  Modelled from the spec: the resolution of the missing guard, ``resolves symlinks and
  \<open>..\<close> segments''. \<open>walk\<close> goes through
  the segments still to come from the path resolved so far: an empty segment and \<open>.\<close>
  stay, \<open>..\<close> goes to the parent, a symbolic link is replaced by its target, from the
  root when the target is absolute. Where a segment is not there and where a file stands
  for a directory, the resolution stops and
  the place is where the segments still to come lead from there; with \<open>mustExist\<close>
  false (a file about to be created) the last segment alone may be missing. A link
  beyond \<open>maxLinks\<close> is not followed.
\<close>

fun walk :: "Tree \<Rightarrow> bool \<Rightarrow> nat \<Rightarrow> string list \<Rightarrow> string list \<Rightarrow> Resolution" where
  "walk t mustExist fuel cur [] = Found cur"
| "walk t mustExist fuel cur (s # rest) =
     (if s = [] \<or> s = ''.'' then walk t mustExist fuel cur rest
      else if s = ''..'' then walk t mustExist fuel (butlast cur) rest
      else
        case t (cur @ [s]) of
          None \<Rightarrow>
            if rest = [] \<and> \<not> mustExist then Found (cur @ [s])
            else Missing (lexical (cur @ [s]) rest)
        | Some (Symlink target) \<Rightarrow>
            (case fuel of
               0 \<Rightarrow> TooManyLinks
             | Suc fuel' \<Rightarrow>
                 walk t mustExist fuel' (if isAbsolute target then [] else cur)
                   (splitPath target @ rest))
        | Some RegularFile \<Rightarrow>
            if rest = [] then Found (cur @ [s]) else Missing (lexical (cur @ [s]) rest)
        | Some Directory \<Rightarrow> walk t mustExist fuel (cur @ [s]) rest)"

text \<open>
  Modelled from the spec: ``resolves symlinks and \<open>..\<close> segments'', said as rules and
  not as a computation, to compare \<open>walk\<close> with. \<open>leadsTo t mustExist k cur pend p\<close>:
  from the directory \<open>cur\<close> the segments \<open>pend\<close> lead to the path \<open>p\<close> of the
  file system \<open>t\<close>, through at most \<open>k\<close> symbolic links.
\<close>

inductive leadsTo :: "Tree \<Rightarrow> bool \<Rightarrow> nat \<Rightarrow> string list \<Rightarrow> string list \<Rightarrow> string list \<Rightarrow> bool"
  for t :: Tree and mustExist :: bool where
  arrived: "leadsTo t mustExist k cur [] cur"
| stay: "s = [] \<or> s = ''.'' \<Longrightarrow> leadsTo t mustExist k cur rest p
     \<Longrightarrow> leadsTo t mustExist k cur (s # rest) p"
| parent: "leadsTo t mustExist k (butlast cur) rest p
     \<Longrightarrow> leadsTo t mustExist k cur (''..'' # rest) p"
| down: "s \<noteq> [] \<Longrightarrow> s \<noteq> ''.'' \<Longrightarrow> s \<noteq> ''..'' \<Longrightarrow> t (cur @ [s]) = Some Directory
     \<Longrightarrow> leadsTo t mustExist k (cur @ [s]) rest p
     \<Longrightarrow> leadsTo t mustExist k cur (s # rest) p"
| regular: "s \<noteq> [] \<Longrightarrow> s \<noteq> ''.'' \<Longrightarrow> s \<noteq> ''..'' \<Longrightarrow> t (cur @ [s]) = Some RegularFile
     \<Longrightarrow> leadsTo t mustExist k cur [s] (cur @ [s])"
| fresh: "s \<noteq> [] \<Longrightarrow> s \<noteq> ''.'' \<Longrightarrow> s \<noteq> ''..'' \<Longrightarrow> t (cur @ [s]) = None
     \<Longrightarrow> \<not> mustExist
     \<Longrightarrow> leadsTo t mustExist k cur [s] (cur @ [s])"
| link: "s \<noteq> [] \<Longrightarrow> s \<noteq> ''.'' \<Longrightarrow> s \<noteq> ''..'' \<Longrightarrow> t (cur @ [s]) = Some (Symlink target)
     \<Longrightarrow> leadsTo t mustExist k (if isAbsolute target then [] else cur) (splitPath target @ rest) p
     \<Longrightarrow> leadsTo t mustExist (Suc k) cur (s # rest) p"

text \<open>Modelled from the spec: the canonical path the missing guard computes for a raw
  path. Every path is resolved from the root: a relative path is the working directory
  followed by the path, so that a symbolic link in the working directory is resolved like
  any other.\<close>

definition canonical :: "Guard \<Rightarrow> Tree \<Rightarrow> bool \<Rightarrow> string \<Rightarrow> Resolution" where
  "canonical g t mustExist raw =
     walk t mustExist (maxLinks g) []
       ((if isAbsolute raw then [] else workingDir g) @ splitPath raw)"

text \<open>Modelled from the spec: the ``case rules per platform'' of the missing guard, for
  one segment.\<close>

definition sameSegment :: "bool \<Rightarrow> string \<Rightarrow> string \<Rightarrow> bool" where
  "sameSegment ci a b = (if ci then map upperByte a = map upperByte b else a = b)"

text \<open>Modelled from the spec: the match of the missing guard, ``prefix match on
  canonical, separator-aware'': a directory is matched segment by segment, so
  \<open>/srv/data\<close> holds \<open>/srv/data\<close> and \<open>/srv/data/x\<close> and not \<open>/srv/database\<close>.\<close>

fun underDir :: "bool \<Rightarrow> string list \<Rightarrow> string list \<Rightarrow> bool" where
  "underDir ci [] p = True"
| "underDir ci (d # ds) [] = False"
| "underDir ci (d # ds) (s # ss) = (sameSegment ci d s \<and> underDir ci ds ss)"

text \<open>Modelled from the spec: for the missing guard a canonical path is allowed when it
  is under one of the configured directories.\<close>

definition allowed :: "Guard \<Rightarrow> string list \<Rightarrow> bool" where
  "allowed g p = (\<exists>d \<in> set (allowedDirs g). underDir (caseInsensitive g) d p)"

text \<open>Modelled from the spec: \<open>resolve(rawPath) -> canonicalPath | AccessDenied\<close> of the
  missing guard. The check of the allowed directories comes first, on the place the path
  leads to, be it there or not: ``traversal sequences always fail with \<open>AccessDenied\<close>'',
  and \<open>NotFound\<close> is the answer for a missing path under an allowed directory only. A
  path whose links the guard does not follow to their end is not known to stay inside
  and is denied.
  \<open>resolve\<close> reads the file system and the configuration and returns its result, nothing
  else.\<close>

definition resolve :: "Guard \<Rightarrow> Tree \<Rightarrow> bool \<Rightarrow> string \<Rightarrow> AccessError + string list" where
  "resolve g t mustExist raw =
     (case canonical g t mustExist raw of
        Found p \<Rightarrow> if allowed g p then Inr p else Inl AccessDenied
      | Missing p \<Rightarrow> if allowed g p then Inl NotFound else Inl AccessDenied
      | TooManyLinks \<Rightarrow> Inl AccessDenied)"

text \<open>A path of plain segments: no empty segment, no \<open>.\<close> and no \<open>..\<close>.\<close>

definition clean :: "string list \<Rightarrow> bool" where
  "clean p = (\<forall>s \<in> set p. s \<noteq> [] \<and> s \<noteq> ''.'' \<and> s \<noteq> ''..'')"

text \<open>No segment of the path holds a separator.\<close>

definition noSlash :: "string list \<Rightarrow> bool" where
  "noSlash p = (\<forall>s \<in> set p. CHR ''/'' \<notin> set s)"

text \<open>A symbolic link is at a place of the file system.\<close>

definition isLink :: "Node option \<Rightarrow> bool" where
  "isLink n = (case n of Some (Symlink target) \<Rightarrow> True | _ \<Rightarrow> False)"

text \<open>No symbolic link is at the path or above it.\<close>

definition linkFree :: "Tree \<Rightarrow> string list \<Rightarrow> bool" where
  "linkFree t p = (\<forall>n \<in> set [1..<Suc (length p)]. \<not> isLink (t (take n p)))"

text \<open>The path is one of plain segments, and a directory is at it and at every path
  above it.\<close>

definition dirPath :: "Tree \<Rightarrow> string list \<Rightarrow> bool" where
  "dirPath t p = (clean p \<and> (\<forall>n \<in> set [1..<Suc (length p)]. t (take n p) = Some Directory))"

text \<open>What the last segment of a canonical path may name: a directory or a file, and
  nothing yet only where the path need not exist.\<close>

definition endsAt :: "bool \<Rightarrow> Node option \<Rightarrow> bool" where
  "endsAt mustExist n =
     (case n of
        None \<Rightarrow> \<not> mustExist
      | Some (Symlink target) \<Rightarrow> False
      | Some RegularFile \<Rightarrow> True
      | Some Directory \<Rightarrow> True)"

text \<open>A canonical path of the file system, said without the resolution: the root, or a
  path of plain segments whose parent is a path of directories and whose last segment is
  no symbolic link.\<close>

definition canonicalPath :: "Tree \<Rightarrow> bool \<Rightarrow> string list \<Rightarrow> bool" where
  "canonicalPath t mustExist p =
     (p = [] \<or> (clean p \<and> dirPath t (butlast p) \<and> endsAt mustExist (t p)))"

text \<open>The raw path that names the segments from the root.\<close>

definition joinPath :: "string list \<Rightarrow> string" where
  "joinPath p = (if p = [] then ''/'' else concat (map (\<lambda>s. CHR ''/'' # s) p))"

text \<open>A file system for evaluation: in \<open>/srv/data\<close> are a file, a directory, a link
  out to \<open>/etc\<close>, a link to the file and a link to itself.\<close>

definition testTree :: Tree where
  "testTree =
     [[''srv''] \<mapsto> Directory,
      [''srv'', ''data''] \<mapsto> Directory,
      [''srv'', ''data'', ''notes.txt''] \<mapsto> RegularFile,
      [''srv'', ''data'', ''sub''] \<mapsto> Directory,
      [''srv'', ''data'', ''out''] \<mapsto> Symlink ''/etc'',
      [''srv'', ''data'', ''sub'', ''up''] \<mapsto> Symlink ''../notes.txt'',
      [''srv'', ''database''] \<mapsto> Directory,
      [''srv'', ''data'', ''loop''] \<mapsto> Symlink ''loop'',
      [''etc''] \<mapsto> Directory,
      [''etc'', ''passwd''] \<mapsto> RegularFile]"

text \<open>A file system without symbolic links, for evaluation.\<close>

definition plainTree :: Tree where
  "plainTree =
     [[''srv''] \<mapsto> Directory,
      [''srv'', ''data''] \<mapsto> Directory,
      [''srv'', ''data'', ''notes.txt''] \<mapsto> RegularFile,
      [''etc''] \<mapsto> Directory]"

text \<open>A guard for evaluation: \<open>/srv/data\<close> is allowed.\<close>

definition testGuard :: Guard where
  "testGuard =
     \<lparr>allowedDirs = [[''srv'', ''data'']], caseInsensitive = False,
      workingDir = [''srv'', ''data''], maxLinks = 255\<rparr>"

text \<open>The same guard on a platform that does not tell the cases of a letter apart.\<close>

definition testGuardNoCase :: Guard where
  "testGuardNoCase =
     \<lparr>allowedDirs = [[''srv'', ''data'']], caseInsensitive = True,
      workingDir = [''srv'', ''data''], maxLinks = 255\<rparr>"

text \<open>The same guard started in \<open>/srv/data/out\<close>, the link that leads out to \<open>/etc\<close>.\<close>

definition testGuardLinked :: Guard where
  "testGuardLinked =
     \<lparr>allowedDirs = [[''srv'', ''data'']], caseInsensitive = False,
      workingDir = [''srv'', ''data'', ''out''], maxLinks = 255\<rparr>"

text \<open>The same guard, which follows no symbolic link.\<close>

definition testGuardNoLinks :: Guard where
  "testGuardNoLinks =
     \<lparr>allowedDirs = [[''srv'', ''data'']], caseInsensitive = False,
      workingDir = [''srv'', ''data''], maxLinks = 0\<rparr>"

section \<open>Properties of the parsers\<close>

lemma decAcc_ge: "n \<le> decAcc n cs"
proof (induction cs arbitrary: n)
  case Nil
  show ?case by simp
next
  case (Cons c cs)
  have "n \<le> 10 * n + (byte c - 0x30)" by simp
  also have "\<dots> \<le> decAcc (10 * n + (byte c - 0x30)) cs" by (rule Cons.IH)
  finally show ?case by simp
qed

lemma unat_cutoff10: "unat cutoff10 = 1844674407370955162"
  by (simp add: cutoff10_def)

lemma unat_maxVal: "unat maxVal = 18446744073709551615"
  by (simp add: maxVal_def)

lemma digit_le9: "isDigit c \<Longrightarrow> byte c - 0x30 \<le> 9"
  unfolding isDigit_def by arith

lemma digitVal_unat: "isDigit c \<Longrightarrow> unat (digitVal c) = byte c - 0x30"
  unfolding digitVal_def
  by (rule of_nat_inverse [OF refl]) (use digit_le9 [of c] in simp)

lemma parseUint_step:
  assumes d: "isDigit c" and small: "unat n < 1844674407370955162"
  shows "unat (n * 10) = unat n * 10"
    and "(n * 10 + digitVal c < n * 10) = (18446744073709551616 \<le> unat n * 10 + (byte c - 0x30))"
    and "\<not> (n * 10 + digitVal c > maxVal)"
    and "unat n * 10 + (byte c - 0x30) < 18446744073709551616 \<Longrightarrow>
           unat (n * 10 + digitVal c) = unat n * 10 + (byte c - 0x30)"
proof -
  have m: "unat (n * 10) = unat n * 10"
    using small unat_mult_lem [of n 10] by simp
  show "unat (n * 10) = unat n * 10" by (rule m)
  have s: "unat (n * 10 + digitVal c) = (unat n * 10 + (byte c - 0x30)) mod 18446744073709551616"
    by (simp only: unat_word_ariths(1) m digitVal_unat [OF d]) simp
  have d9: "byte c - 0x30 \<le> 9" using d by (rule digit_le9)
  show "(n * 10 + digitVal c < n * 10) = (18446744073709551616 \<le> unat n * 10 + (byte c - 0x30))"
  proof (cases "18446744073709551616 \<le> unat n * 10 + (byte c - 0x30)")
    case True
    then have "(unat n * 10 + (byte c - 0x30)) mod 18446744073709551616
                 = unat n * 10 + (byte c - 0x30) - 18446744073709551616"
      using small d9 by (simp add: mod_if)
    then show ?thesis using True d9 by (simp add: word_less_nat_alt s m)
  next
    case False
    then show ?thesis by (simp add: word_less_nat_alt s m)
  qed
  show "\<not> (n * 10 + digitVal c > maxVal)"
    using unsigned_less [of "n * 10 + digitVal c", where 'a = nat]
    by (simp add: word_less_nat_alt unat_maxVal)
  show "unat n * 10 + (byte c - 0x30) < 18446744073709551616 \<Longrightarrow>
           unat (n * 10 + digitVal c) = unat n * 10 + (byte c - 0x30)"
    by (simp add: s)
qed

lemma parseUintLoop_digits:
  "\<forall>c \<in> set cs. isDigit c \<Longrightarrow>
   parseUintLoop n cs =
     (if decAcc (unat n) cs < 2 ^ 64 then Inr (of_nat (decAcc (unat n) cs)) else Inl ErrRange)"
proof (induction cs arbitrary: n)
  case Nil
  have "unat n < 2 ^ 64" using unsigned_less [of n, where 'a = nat] by simp
  then show ?case by simp
next
  case (Cons c cs)
  then have d: "isDigit c" and rest: "\<forall>c \<in> set cs. isDigit c" by simp_all
  let ?m = "10 * unat n + (byte c - 0x30)"
  show ?case
  proof (cases "n \<ge> cutoff10")
    case True
    then have "1844674407370955162 \<le> unat n" by (simp add: word_le_nat_alt unat_cutoff10)
    then have "2 ^ 64 \<le> ?m" by simp
    also have "?m \<le> decAcc ?m cs" by (rule decAcc_ge)
    finally show ?thesis using True d by simp
  next
    case False
    then have small: "unat n < 1844674407370955162" by (simp add: word_le_nat_alt unat_cutoff10)
    note st = parseUint_step [OF d small]
    show ?thesis
    proof (cases "18446744073709551616 \<le> unat n * 10 + (byte c - 0x30)")
      case True
      then have "2 ^ 64 \<le> ?m" by (simp add: mult.commute)
      also have "?m \<le> decAcc ?m cs" by (rule decAcc_ge)
      finally show ?thesis using True False d st(2) by (simp add: Let_def)
    next
      case inrange: False
      then have u: "unat (n * 10 + digitVal c) = ?m" using st(4) by (simp add: mult.commute)
      show ?thesis using inrange False d st(2) st(3) Cons.IH [OF rest, of "n * 10 + digitVal c"]
        by (simp add: Let_def u)
    qed
  qed
qed

lemma parseUintLoop_nondigit:
  "\<not> (\<forall>c \<in> set cs. isDigit c) \<Longrightarrow> \<exists>e. parseUintLoop n cs = Inl e"
  by (induction cs arbitrary: n) (auto simp: Let_def)

lemma ParseUint_digits:
  "digits ds \<Longrightarrow>
   ParseUint ds = (if decimal ds < 2 ^ 64 then Inr (of_nat (decimal ds)) else Inl ErrRange)"
  using parseUintLoop_digits [of ds 0] by (simp add: ParseUint_def digits_def decimal_def)

lemma ParseUint_nondigits: "\<not> digits ds \<Longrightarrow> \<exists>e. ParseUint ds = Inl e"
  using parseUintLoop_nondigit [of ds 0] by (auto simp: ParseUint_def digits_def)

lemma word_of_nat_ge_2p63:
  "d < 18446744073709551616 \<Longrightarrow>
     ((9223372036854775808 :: uint64) \<le> of_nat d) = (9223372036854775808 \<le> d)"
  by (simp add: word_le_nat_alt unat_of_nat)

lemma word_of_nat_gt_2p63:
  "d < 18446744073709551616 \<Longrightarrow>
     ((9223372036854775808 :: uint64) < of_nat d) = (9223372036854775808 < d)"
  by (simp add: word_less_nat_alt unat_of_nat)

lemma ParseInt_finish:
  "s0 \<noteq> [] \<Longrightarrow>
   ParseInt s0 = finishInt (hd s0 = CHR ''-'') (ParseUint (if isSign (hd s0) then tl s0 else s0))"
  by (simp add: ParseInt_def finishInt_def isSign_def Let_def)

lemma finishInt_error: "\<exists>e'. finishInt neg (Inl e) = Inl e'"
  by (cases e) (auto simp: finishInt_def maxVal_def Let_def)

lemma finishInt_value:
  assumes "d < 2 ^ 64"
  shows "finishInt neg (Inr (of_nat d)) =
           (if neg then (if d \<le> 2 ^ 63 then Inr (word_of_int (- int d)) else Inl ErrRange)
            else (if d < 2 ^ 63 then Inr (word_of_int (int d)) else Inl ErrRange))"
proof -
  have d: "d < 18446744073709551616" using assms by simp
  show ?thesis
    by (simp add: finishInt_def Let_def word_of_nat_ge_2p63 [OF d] word_of_nat_gt_2p63 [OF d]
        not_le not_less)
qed

lemma ParseInt_Inr_iff:
  "ParseInt s = Inr v \<longleftrightarrow> isDecimalInt s \<and> fitsInt64 (intVal s) \<and> v = word_of_int (intVal s)"
proof (cases "s = []")
  case True
  then show ?thesis by (simp add: ParseInt_def isDecimalInt_def)
next
  case ne: False
  let ?ds = "if isSign (hd s) then tl s else s"
  let ?neg = "hd s = CHR ''-''"
  have P: "ParseInt s = finishInt ?neg (ParseUint ?ds)" using ne by (rule ParseInt_finish)
  show ?thesis
  proof (cases "digits ?ds")
    case False
    then obtain e where "ParseUint ?ds = Inl e" using ParseUint_nondigits by blast
    then obtain e' where "ParseInt s = Inl e'" using P finishInt_error [of ?neg e] by auto
    then show ?thesis using False ne by (simp add: isDecimalInt_def)
  next
    case dg: True
    then have dec: "isDecimalInt s" using ne by (simp add: isDecimalInt_def)
    have iv: "intVal s = (if ?neg then - int (decimal ?ds) else int (decimal ?ds))"
      using ne by (auto simp: intVal_def isSign_def)
    show ?thesis
    proof (cases "decimal ?ds < 2 ^ 64")
      case big: False
      then have "ParseUint ?ds = Inl ErrRange" using ParseUint_digits [OF dg] by simp
      then obtain e' where "ParseInt s = Inl e'" using P finishInt_error [of ?neg ErrRange] by auto
      moreover have "\<not> fitsInt64 (intVal s)"
      proof -
        define d where "d = decimal ?ds"
        have "\<not> d < 2 ^ 64" using big by (simp add: d_def)
        moreover have "intVal s = (if ?neg then - int d else int d)" by (simp only: iv d_def)
        ultimately show ?thesis by (simp add: fitsInt64_def)
      qed
      ultimately show ?thesis by simp
    next
      case True
      then have "ParseUint ?ds = Inr (of_nat (decimal ?ds))" using ParseUint_digits [OF dg] by simp
      then have "ParseInt s = finishInt ?neg (Inr (of_nat (decimal ?ds)))" using P by simp
      moreover define d where "d = decimal ?ds"
      moreover have "intVal s = (if ?neg then - int d else int d)" by (simp only: iv d_def)
      moreover have "d < 2 ^ 64" using True by (simp add: d_def)
      ultimately show ?thesis using dec finishInt_value [of d ?neg]
        by (auto simp: fitsInt64_def)
    qed
  qed
qed

lemma ParseInt_Inl_iff:
  "(\<exists>e. ParseInt s = Inl e) \<longleftrightarrow> \<not> (isDecimalInt s \<and> fitsInt64 (intVal s))"
proof -
  have "(\<exists>e. ParseInt s = Inl e) \<longleftrightarrow> \<not> (\<exists>v. ParseInt s = Inr v)"
    by (cases "ParseInt s") auto
  then show ?thesis by (simp add: ParseInt_Inr_iff)
qed

subsection \<open>White space\<close>

lemma isSpace2_D:
  "isSpace2 e \<Longrightarrow> \<exists>a c. e = [a, c] \<and> byte a = 0xC2 \<and> 0x80 \<le> byte c"
  by (auto simp: isSpace2_def map_eq_Cons_conv)

lemma isSpace3_D:
  assumes "isSpace3 e"
  shows "\<exists>a b c. e = [a, b, c] \<and> 0xE1 \<le> byte a \<and> byte a \<noteq> 0xC2 \<and> byte b \<noteq> 0xC2 \<and> 0x80 \<le> byte c"
proof -
  from assms obtain x y z where m: "map byte e = [x, y, z]"
    and v: "0xE1 \<le> x \<and> x \<noteq> 0xC2 \<and> y \<noteq> 0xC2 \<and> 0x80 \<le> z"
    unfolding isSpace3_def by (auto split: list.splits)
  from m obtain a b c where "e = [a, b, c]" "byte a = x" "byte b = y" "byte c = z"
    by (auto simp: map_eq_Cons_conv)
  with v show ?thesis by blast
qed

lemma isAsciiSpace_small: "isAsciiSpace c \<Longrightarrow> byte c < 0x80"
  by (auto simp: isAsciiSpace_def)

lemma not_isSpace2_Cons: "byte a \<noteq> 0xC2 \<Longrightarrow> \<not> isSpace2 (a # cs)"
  by (auto simp: isSpace2_def)

lemma not_isSpace3_Cons: "byte a < 0xE1 \<Longrightarrow> \<not> isSpace3 (a # cs)"
  by (auto dest!: isSpace3_D)

text \<open>A string that starts with an ASCII byte that is no white space starts with none.\<close>

lemma leadingSpace_ascii:
  "byte c < 0x80 \<Longrightarrow> \<not> isAsciiSpace c \<Longrightarrow> leadingSpace (c # cs) = 0"
  by (simp add: leadingSpace_def not_isSpace2_Cons not_isSpace3_Cons take_Cons')

lemma TrimLeftSpace_ascii:
  "byte c < 0x80 \<Longrightarrow> \<not> isAsciiSpace c \<Longrightarrow> TrimLeftSpace (c # cs) = c # cs"
  by (simp add: leadingSpace_ascii)


text \<open>The rune a string starts with is still the one it starts with after appending.\<close>

lemma leadingSpace_enc2: "isSpace2 e \<Longrightarrow> leadingSpace (e @ r) = 2"
proof -
  assume e: "isSpace2 e"
  then obtain a c where ac: "e = [a, c]" "byte a = 0xC2" by (auto dest!: isSpace2_D)
  then have "\<not> isAsciiSpace a" by (auto simp: isAsciiSpace_def)
  then show ?thesis using e ac by (simp add: leadingSpace_def)
qed

lemma leadingSpace_enc3: "isSpace3 e \<Longrightarrow> leadingSpace (e @ r) = 3"
proof -
  assume e: "isSpace3 e"
  then obtain a b c where abc: "e = [a, b, c]" "0xE1 \<le> byte a" "byte a \<noteq> 0xC2"
    by (auto dest!: isSpace3_D)
  then have "\<not> isAsciiSpace a" by (auto simp: isAsciiSpace_def)
  moreover have "\<not> isSpace2 [a, b]" using abc by (simp add: not_isSpace2_Cons)
  ultimately show ?thesis using e abc by (simp add: leadingSpace_def)
qed

lemma leadingSpace_enc1: "isAsciiSpace c \<Longrightarrow> leadingSpace (c # r) = 1"
  by (simp add: leadingSpace_def)

lemma trailingSpace_enc1: "isAsciiSpace c \<Longrightarrow> trailingSpace (b @ [c]) = 1"
  by (simp add: trailingSpace_def)

lemma trailingSpace_enc2: "isSpace2 e \<Longrightarrow> trailingSpace (b @ e) = 2"
proof -
  assume e: "isSpace2 e"
  then obtain a c where ac: "e = [a, c]" "0x80 \<le> byte c" by (auto dest!: isSpace2_D)
  then have "\<not> isAsciiSpace c" by (auto simp: isAsciiSpace_def)
  then show ?thesis using e ac by (simp add: trailingSpace_def)
qed

lemma trailingSpace_enc3: "isSpace3 e \<Longrightarrow> trailingSpace (b @ e) = 3"
proof -
  assume e: "isSpace3 e"
  then obtain a x c where abc: "e = [a, x, c]" "0x80 \<le> byte c" "byte x \<noteq> 0xC2"
    by (auto dest!: isSpace3_D)
  then have "\<not> isAsciiSpace c" by (auto simp: isAsciiSpace_def)
  moreover have "\<not> isSpace2 [x, c]" using abc by (simp add: not_isSpace2_Cons)
  ultimately show ?thesis using e abc by (simp add: trailingSpace_def)
qed


text \<open>A string that starts with a white space rune splits into the rune's bytes and the
  rest; the bytes are found again at the start and at the end of any string.\<close>

lemma leadingSpace_rune:
  assumes "leadingSpace s \<noteq> 0"
  shows "\<exists>e cs. s = e @ cs \<and> e \<noteq> [] \<and> (\<forall>r. leadingSpace (e @ r) = length e)
           \<and> (\<forall>b. trailingSpace (b @ e) = length e)"
proof (cases "s = []")
  case True
  with assms show ?thesis by (simp add: leadingSpace_def)
next
  case ne: False
  show ?thesis
  proof (cases "isAsciiSpace (hd s)")
    case True
    have "s = [hd s] @ tl s" using ne by simp
    moreover have "\<forall>r. leadingSpace ([hd s] @ r) = length [hd s]"
      using True by (simp add: leadingSpace_enc1)
    moreover have "\<forall>b. trailingSpace (b @ [hd s]) = length [hd s]"
      using True by (simp add: trailingSpace_enc1)
    ultimately show ?thesis by blast
  next
    case na: False
    show ?thesis
    proof (cases "isSpace2 (take 2 s)")
      case True
      then obtain a c where "take 2 s = [a, c]" by (auto dest!: isSpace2_D)
      then have len: "length (take 2 s) = 2" and nn: "take 2 s \<noteq> []" by (simp_all only:, simp_all)
      have "s = take 2 s @ drop 2 s" by simp
      moreover have "\<forall>r. leadingSpace (take 2 s @ r) = length (take 2 s)"
        using leadingSpace_enc2 [OF True] by (simp only: len) simp
      moreover have "\<forall>b. trailingSpace (b @ take 2 s) = length (take 2 s)"
        using trailingSpace_enc2 [OF True] by (simp only: len) simp
      ultimately show ?thesis using nn by blast
    next
      case n2: False
      with assms ne na have t: "isSpace3 (take 3 s)"
        by (simp add: leadingSpace_def split: if_splits)
      then obtain a b c where "take 3 s = [a, b, c]" by (auto dest!: isSpace3_D)
      then have len: "length (take 3 s) = 3" and nn: "take 3 s \<noteq> []" by (simp_all only:, simp_all)
      have "s = take 3 s @ drop 3 s" by simp
      moreover have "\<forall>r. leadingSpace (take 3 s @ r) = length (take 3 s)"
        using leadingSpace_enc3 [OF t] by (simp only: len) simp
      moreover have "\<forall>b. trailingSpace (b @ take 3 s) = length (take 3 s)"
        using trailingSpace_enc3 [OF t] by (simp only: len) simp
      ultimately show ?thesis using nn by blast
    qed
  qed
qed

lemma TrimLeftSpace_step:
  "leadingSpace s \<noteq> 0 \<Longrightarrow> TrimLeftSpace s = TrimLeftSpace (drop (leadingSpace s) s)"
  by (subst TrimLeftSpace.simps) simp

lemma TrimLeftSpace_stop: "leadingSpace s = 0 \<Longrightarrow> TrimLeftSpace s = s"
  by (subst TrimLeftSpace.simps) simp

lemma TrimRightSpace_step:
  "trailingSpace s \<noteq> 0 \<Longrightarrow>
     TrimRightSpace s = TrimRightSpace (take (length s - trailingSpace s) s)"
  by (subst TrimRightSpace.simps) simp

lemma TrimRightSpace_stop: "trailingSpace s = 0 \<Longrightarrow> TrimRightSpace s = s"
  by (subst TrimRightSpace.simps) simp

lemma whiteSpace_append:
  "whiteSpace ws \<Longrightarrow>
     TrimLeftSpace (ws @ r) = TrimLeftSpace r \<and> TrimRightSpace (b @ ws) = TrimRightSpace b"
proof (induction ws arbitrary: b rule: length_induct)
  case (1 ws)
  show ?case
  proof (cases "leadingSpace ws = 0")
    case True
    then have "ws = []" using "1.prems" by (simp add: whiteSpace_def TrimLeftSpace_stop)
    then show ?thesis by simp
  next
    case False
    then obtain e cs where sp: "ws = e @ cs" "e \<noteq> []"
      and lead: "\<And>r. leadingSpace (e @ r) = length e"
      and trail: "\<And>b. trailingSpace (b @ e) = length e"
      using leadingSpace_rune [of ws] by blast
    have "TrimLeftSpace ws = TrimLeftSpace cs"
      using TrimLeftSpace_step [of "e @ cs"] lead [of cs] sp by simp
    then have wcs: "whiteSpace cs" using "1.prems" by (simp add: whiteSpace_def)
    have shorter: "length cs < length ws" using sp by simp
    have IH: "TrimLeftSpace (cs @ r) = TrimLeftSpace r \<and>
              TrimRightSpace ((b @ e) @ cs) = TrimRightSpace (b @ e)"
      using "1.IH" shorter wcs by blast
    have "TrimLeftSpace (ws @ r) = TrimLeftSpace (cs @ r)"
      using TrimLeftSpace_step [of "e @ cs @ r"] lead [of "cs @ r"] sp by simp
    moreover have "TrimRightSpace (b @ e) = TrimRightSpace b"
      using TrimRightSpace_step [of "b @ e"] trail [of b] sp by simp
    ultimately show ?thesis using IH sp by simp
  qed
qed

text \<open>A string that ends with an ASCII byte that is no white space ends with none.\<close>

lemma trailingSpace_ascii:
  assumes "byte c < 0x80" "\<not> isAsciiSpace c"
  shows "trailingSpace (b @ [c]) = 0"
proof -
  have "\<not> isSpace2 (drop (length (b @ [c]) - 2) (b @ [c]))"
  proof
    assume "isSpace2 (drop (length (b @ [c]) - 2) (b @ [c]))"
    then obtain x y where d: "drop (length (b @ [c]) - 2) (b @ [c]) = [x, y]" "0x80 \<le> byte y"
      by (auto dest!: isSpace2_D)
    then have "last (drop (length (b @ [c]) - 2) (b @ [c])) = y" by simp
    then have "c = y" by (simp add: last_drop)
    with d assms show False by simp
  qed
  moreover have "\<not> isSpace3 (drop (length (b @ [c]) - 3) (b @ [c]))"
  proof
    assume "isSpace3 (drop (length (b @ [c]) - 3) (b @ [c]))"
    then obtain x y z where d: "drop (length (b @ [c]) - 3) (b @ [c]) = [x, y, z]" "0x80 \<le> byte z"
      by (auto dest!: isSpace3_D)
    then have "last (drop (length (b @ [c]) - 3) (b @ [c])) = z" by simp
    then have "c = z" by (simp add: last_drop)
    with d assms show False by simp
  qed
  ultimately show ?thesis using assms by (simp add: trailingSpace_def)
qed

subsection \<open>Plain bytes: ASCII and no white space\<close>

lemma plain_digit: "isDigit c \<Longrightarrow> plain c"
  by (auto simp: plain_def isDigit_def isAsciiSpace_def)

lemma plain_upperByte: "plain (upperByte c) \<Longrightarrow> plain c"
  by (auto simp: plain_def upperByte_def isAsciiSpace_def split: if_splits)

lemma plain_letters:
  "plain CHR ''K''" "plain CHR ''M''" "plain CHR ''G''" "plain CHR ''B''"
  "plain CHR ''+''" "plain CHR ''-''"
  by (simp_all add: plain_def isAsciiSpace_def byte_def)

lemma upperByte_digit: "isDigit c \<Longrightarrow> upperByte c = c"
  by (simp add: upperByte_def isDigit_def)

lemma upperByte_sign: "upperByte CHR ''+'' = CHR ''+''" "upperByte CHR ''-'' = CHR ''-''"
  by (simp_all add: upperByte_def byte_def)

lemma digit_not_sign: "isDigit c \<Longrightarrow> \<not> isSign c"
  by (auto simp: isDigit_def isSign_def byte_def)

lemma digit_not_B: "isDigit c \<Longrightarrow> c \<noteq> CHR ''B''"
  by (auto simp: isDigit_def byte_def)

text \<open>\<open>TrimSpace\<close> returns a string that starts and ends with plain bytes as it is, and
  takes white space off around it.\<close>

lemma TrimSpace_plain:
  assumes ws: "whiteSpace ws1" "whiteSpace ws2"
    and b: "body \<noteq> []" "plain (hd body)" "plain (last body)"
  shows "TrimSpace (ws1 @ body @ ws2) = body"
proof -
  obtain c cs where hd: "body = c # cs" "plain c" using b by (cases body) auto
  have "TrimLeftSpace (ws1 @ body @ ws2) = TrimLeftSpace (body @ ws2)"
    using ws(1) whiteSpace_append by blast
  also have "\<dots> = body @ ws2"
    using hd TrimLeftSpace_ascii [of c "cs @ ws2"] by (simp add: plain_def)
  finally have l: "TrimLeftSpace (ws1 @ body @ ws2) = body @ ws2" .
  have "TrimRightSpace (body @ ws2) = TrimRightSpace body"
    using ws(2) whiteSpace_append by blast
  also have "\<dots> = body"
  proof -
    have "body = butlast body @ [last body]" using b(1) by simp
    then have "trailingSpace body = 0"
      using trailingSpace_ascii [of "last body" "butlast body"] b(3) by (simp add: plain_def)
    then show ?thesis by (rule TrimRightSpace_stop)
  qed
  finally show ?thesis using l by (simp add: TrimSpace_def)
qed

subsection \<open>Suffixes\<close>

lemma HasSuffix_append: "length u = length v \<Longrightarrow> HasSuffix (x @ u) v = (u = v)"
  by (simp add: HasSuffix_def)

lemma HasSuffix_last: "HasSuffix x v \<Longrightarrow> v \<noteq> [] \<Longrightarrow> last x = last v"
proof -
  assume h: "HasSuffix x v" and v: "v \<noteq> []"
  then have d: "drop (length x - length v) x = v" and "length v \<le> length x"
    by (simp_all add: HasSuffix_def)
  then have "length x - length v < length x" using v by (cases v) auto
  then have "last (drop (length x - length v) x) = last x" by (rule last_drop)
  then show ?thesis using d by simp
qed

lemma TrimSuffix_append: "TrimSuffix (x @ u) u = x"
  by (simp add: TrimSuffix_def HasSuffix_def)

lemma stripUnit_none:
  assumes "x \<noteq> []" "isDigit (last x)"
  shows "stripUnit x = (1, x)"
proof -
  have "last x \<noteq> CHR ''B''" using assms(2) by (rule digit_not_B)
  then have "\<not> HasSuffix x ''KB''" "\<not> HasSuffix x ''MB''" "\<not> HasSuffix x ''GB''"
    using HasSuffix_last [of x "''KB''"] HasSuffix_last [of x "''MB''"]
      HasSuffix_last [of x "''GB''"] by auto
  then show ?thesis by (simp add: stripUnit_def)
qed

lemma stripUnit_KB: "stripUnit (x @ ''KB'') = (1024, x)"
  by (simp add: stripUnit_def HasSuffix_append TrimSuffix_append)

lemma stripUnit_MB: "stripUnit (x @ ''MB'') = (1048576, x)"
  by (simp add: stripUnit_def HasSuffix_append TrimSuffix_append)

lemma stripUnit_GB: "stripUnit (x @ ''GB'') = (1073741824, x)"
  by (simp add: stripUnit_def HasSuffix_append TrimSuffix_append)

lemma unitMultiplier_cases:
  assumes "unitMultiplier sfx = Some m"
  shows "(sfx = [] \<and> m = 1) \<or> (map upperByte sfx = ''KB'' \<and> m = 1024)
       \<or> (map upperByte sfx = ''MB'' \<and> m = 1048576) \<or> (map upperByte sfx = ''GB'' \<and> m = 1073741824)"
  using assms by (auto simp: unitMultiplier_def split: if_splits)

lemma stripUnit_unit:
  assumes "unitMultiplier sfx = Some m" "x \<noteq> []" "isDigit (last x)"
  shows "stripUnit (x @ map upperByte sfx) = (of_nat m, x)"
  using unitMultiplier_cases [OF assms(1)] assms(2,3)
  by (auto simp: stripUnit_none stripUnit_KB stripUnit_MB stripUnit_GB)

lemma unit_plain:
  assumes "unitMultiplier sfx = Some m"
  shows "\<forall>c \<in> set sfx. plain c"
proof -
  have "\<forall>c \<in> set (map upperByte sfx). plain c"
    using unitMultiplier_cases [OF assms] by (auto simp: plain_letters)
  then show ?thesis by (auto intro: plain_upperByte)
qed

lemma signed_decimal:
  assumes "pm \<in> {[], ''+'', ''-''}" "digits ds"
  shows "isDecimalInt (pm @ ds)"
    and "intVal (pm @ ds) = (if pm = ''-'' then - int (decimal ds) else int (decimal ds))"
proof -
  obtain d ds' where ds: "ds = d # ds'" "isDigit d"
    using assms(2) by (cases ds) (auto simp: digits_def)
  then have ns: "\<not> isSign d" and nm: "d \<noteq> CHR ''-''" and np: "d \<noteq> CHR ''+''"
    using digit_not_sign [of d] by (auto simp: isSign_def)
  show "isDecimalInt (pm @ ds)"
    using assms ds ns by (auto simp: isDecimalInt_def isSign_def)
  show "intVal (pm @ ds) = (if pm = ''-'' then - int (decimal ds) else int (decimal ds))"
    using assms(1) ds nm np by (auto simp: intVal_def)
qed

lemma ToUpper_ascii: "\<forall>c \<in> set s. byte c < 0x80 \<Longrightarrow> ToUpper up s = map upperByte s"
  by (simp add: ToUpper_def)

lemma parseSize_signed_decimal:
  assumes ws: "whiteSpace ws1" "whiteSpace ws2"
    and sg: "pm \<in> {[], ''+'', ''-''}" and dg: "digits ds"
    and un: "unitMultiplier sfx = Some m"
  shows "parseSize up (ws1 @ pm @ ds @ sfx @ ws2) =
           (if fitsInt64 (intVal (pm @ ds))
            then Inr (word_of_int (intVal (pm @ ds) * int m))
            else Inl (''invalid size format: '' @ pm @ ds))"
proof -
  let ?body = "pm @ ds @ sfx"
  have dne: "ds \<noteq> []" and dd: "\<forall>c \<in> set ds. isDigit c" using dg by (simp_all add: digits_def)
  have pd: "\<forall>c \<in> set ds. plain c" using dd by (auto intro: plain_digit)
  have ps: "\<forall>c \<in> set pm. plain c" using sg by (auto simp: plain_letters)
  have pu: "\<forall>c \<in> set sfx. plain c" using un by (rule unit_plain)
  have pall: "\<forall>c \<in> set ?body. plain c" using pd ps pu by auto
  have ne: "?body \<noteq> []" using dne by simp
  have "hd ?body \<in> set ?body" "last ?body \<in> set ?body"
    using ne by (rule hd_in_set, rule last_in_set)
  then have "plain (hd ?body)" "plain (last ?body)" using pall by blast+
  with ws ne have "TrimSpace (ws1 @ ?body @ ws2) = ?body" by (rule TrimSpace_plain)
  then have trim: "TrimSpace (ws1 @ pm @ ds @ sfx @ ws2) = ?body" by simp
  have "ToUpper up ?body = map upperByte ?body"
    using pall by (intro ToUpper_ascii) (auto simp: plain_def)
  also have "\<dots> = (pm @ ds) @ map upperByte sfx"
  proof -
    have "map upperByte ds = ds" using dd by (simp add: map_idI upperByte_digit)
    moreover have "map upperByte pm = pm" using sg by (auto simp: upperByte_sign)
    ultimately show ?thesis by simp
  qed
  finally have upper: "ToUpper up ?body = (pm @ ds) @ map upperByte sfx" .
  have "isDigit (last (pm @ ds))" using dne dd by simp
  then have "stripUnit ((pm @ ds) @ map upperByte sfx) = (of_nat m, pm @ ds)"
    using un dne by (intro stripUnit_unit) simp_all
  then have strip: "stripUnit (pm @ ds @ map upperByte sfx) = (of_nat m, pm @ ds)" by simp
  have dec: "isDecimalInt (pm @ ds)" using sg dg by (rule signed_decimal(1))
  show ?thesis
  proof (cases "fitsInt64 (intVal (pm @ ds))")
    case True
    then have "ParseInt (pm @ ds) = Inr (word_of_int (intVal (pm @ ds)))"
      using dec by (simp add: ParseInt_Inr_iff)
    then show ?thesis using True by (simp add: parseSize_def trim upper strip)
  next
    case False
    then obtain e where "ParseInt (pm @ ds) = Inl e" using ParseInt_Inl_iff [of "pm @ ds"] by blast
    then show ?thesis using False by (simp add: parseSize_def trim upper strip)
  qed
qed

lemma sint_word_of_int: "fitsInt64 i \<Longrightarrow> sint (word_of_int i :: int64) = i"
  by (simp add: fitsInt64_def signed_of_int signed_take_bit_int_eq_self)

lemma sint_wrap64: "sint (word_of_int i :: int64) = wrap64 i"
  by (simp add: wrap64_def signed_of_int signed_take_bit_eq_take_bit_shift take_bit_eq_mod)

subsection \<open>What \<open>main\<close> does with the sizes\<close>

lemma parseSize_defaults:
  "parseSize up ''100MB'' = Inr 104857600" "parseSize up ''1MB'' = Inr 1048576"
  by code_simp+

lemma main_sizes:
  assumes "flagParse (atoi rt) (defaultFlags (DefaultConfiguration (NumCPU rt))) args = Inr fl"
    and "\<not> version fl"
    and "parseSize (unicodeUpper rt) (cacheSize fl) = Inr c"
    and "parseSize (unicodeUpper rt) (binaryThreshold fl) = Inr b"
  shows "\<exists>cfg. (main rt args = RunBenchmark cfg \<or> main rt args = InitComponents cfg)
           \<and> CacheSize cfg = c \<and> BinaryThreshold cfg = b"
  using assms by (simp add: main_def Let_def)

lemma main_proceeds:
  assumes "main rt args = RunBenchmark cfg \<or> main rt args = InitComponents cfg"
  shows "\<exists>fl. flagParse (atoi rt) (defaultFlags (DefaultConfiguration (NumCPU rt))) args = Inr fl
           \<and> parseSize (unicodeUpper rt) (cacheSize fl) = Inr (CacheSize cfg)
           \<and> parseSize (unicodeUpper rt) (binaryThreshold fl) = Inr (BinaryThreshold cfg)"
  using assms by (auto simp: main_def Let_def split: sum.splits if_splits)

lemma parseSize_numericPart:
  "parseSize up s =
     (case ParseInt (numericPart up s) of
        Inl err \<Rightarrow> Inl (''invalid size format: '' @ numericPart up s)
      | Inr n \<Rightarrow> Inr (n * unitOf up s))"
  unfolding parseSize_def numericPart_def unitOf_def by (simp add: split_beta)


lemma sint_mult_wrap64: "sint (a * b :: int64) = wrap64 (sint a * sint b)"
proof -
  have "a * b = word_of_int (sint a * sint b)" by simp
  then show ?thesis by (simp only: sint_wrap64)
qed

section \<open>The claims about \<open>parseSize\<close> and \<open>main\<close>\<close>

text \<open>
  C6, as the code has it. For every string made of white space, a non-negative decimal
  integer \<open>n\<close>, a suffix \<open>KB\<close>, \<open>MB\<close> or \<open>GB\<close> in any letter case or none, and white
  space, \<open>parseSize\<close> returns \<open>n\<close> times 1024, \<open>1024^2\<close> or \<open>1024^3\<close> (\<open>n\<close> itself
  without a suffix) and no error, provided the product is at most \<open>2^63 - 1\<close>. For every
  string whose remainder after the suffix is stripped is no decimal integer,
  \<open>parseSize\<close> returns an error. When \<open>main\<close> goes on to the benchmark or to the
  components, the cache size and the binary threshold of its configuration are the values
  \<open>parseSize\<close> returned for the two flags.
\<close>

theorem parseSize_decimal:
  "(whiteSpace ws1 \<and> whiteSpace ws2 \<and> digits ds \<and> unitMultiplier sfx = Some m
      \<and> decimal ds * m < 2 ^ 63
    \<longrightarrow> (\<exists>v. parseSize up (ws1 @ ds @ sfx @ ws2) = Inr v \<and> sint v = int (decimal ds * m)))
   \<and> (\<not> isDecimalInt (numericPart up s) \<longrightarrow> (\<exists>msg. parseSize up s = Inl msg))
   \<and> (main rt args = RunBenchmark cfg \<or> main rt args = InitComponents cfg
    \<longrightarrow> (\<exists>fl. flagParse (atoi rt) (defaultFlags (DefaultConfiguration (NumCPU rt))) args = Inr fl
           \<and> parseSize (unicodeUpper rt) (cacheSize fl) = Inr (CacheSize cfg)
           \<and> parseSize (unicodeUpper rt) (binaryThreshold fl) = Inr (BinaryThreshold cfg)))"
proof (intro conjI impI)
  assume a: "whiteSpace ws1 \<and> whiteSpace ws2 \<and> digits ds \<and> unitMultiplier sfx = Some m
      \<and> decimal ds * m < 2 ^ 63"
  then have dg: "digits ds" and small: "decimal ds * m < 2 ^ 63" by simp_all
  have m1: "1 \<le> m" using a unitMultiplier_cases [of sfx m] by auto
  have iv: "intVal ds = int (decimal ds)" using signed_decimal(2) [of "[]" ds] dg by simp
  have "decimal ds * 1 \<le> decimal ds * m" using m1 by (intro mult_le_mono2)
  then have "decimal ds \<le> decimal ds * m" by (simp only: mult_1_right)
  then have "decimal ds < 2 ^ 63" using small by (rule le_less_trans)
  then have fit: "fitsInt64 (intVal ds)" by (simp add: iv fitsInt64_def)
  define k where "k = decimal ds * m"
  have "k < 2 ^ 63" using small by (simp add: k_def)
  then have "fitsInt64 (int k)" by (simp add: fitsInt64_def)
  then have sk: "sint (word_of_int (int k) :: int64) = int k" by (rule sint_word_of_int)
  have "parseSize up (ws1 @ ds @ sfx @ ws2) = Inr (word_of_int (int (decimal ds) * int m))"
    using parseSize_signed_decimal [of ws1 ws2 "[]" ds sfx m up] a fit by (simp add: iv)
  moreover have "sint (word_of_int (int (decimal ds) * int m) :: int64) = int (decimal ds * m)"
    using sk by (simp add: k_def)
  ultimately show "\<exists>v. parseSize up (ws1 @ ds @ sfx @ ws2) = Inr v \<and> sint v = int (decimal ds * m)"
    by simp
next
  assume "\<not> isDecimalInt (numericPart up s)"
  then obtain e where "ParseInt (numericPart up s) = Inl e"
    using ParseInt_Inl_iff [of "numericPart up s"] by blast
  then show "\<exists>msg. parseSize up s = Inl msg" by (simp add: parseSize_numericPart)
next
  assume "main rt args = RunBenchmark cfg \<or> main rt args = InitComponents cfg"
  then show "\<exists>fl. flagParse (atoi rt) (defaultFlags (DefaultConfiguration (NumCPU rt))) args = Inr fl
           \<and> parseSize (unicodeUpper rt) (cacheSize fl) = Inr (CacheSize cfg)
           \<and> parseSize (unicodeUpper rt) (binaryThreshold fl) = Inr (BinaryThreshold cfg)"
    by (rule main_proceeds)
qed

theorem parseSize_decimal_witness:
  "whiteSpace '' '' \<and> digits ''50'' \<and> unitMultiplier ''mb'' = Some 1048576
   \<and> decimal ''50'' * 1048576 < 2 ^ 63
   \<and> (\<exists>v. parseSize id ('' '' @ ''50'' @ ''mb'' @ '' '') = Inr v \<and> sint v = int (decimal ''50'' * 1048576))
   \<and> \<not> isDecimalInt (numericPart id ''12.5GB'')
   \<and> (\<exists>msg. parseSize id ''12.5GB'' = Inl msg)
   \<and> main testRuntime [''--cache-size'', ''50MB''] =
         InitComponents \<lparr>CacheSize = 52428800, ParallelOps = 16, BinaryThreshold = 1048576,
           VSCodeAPIEnabled = True, DebugMode = False, LogLevel = ''info''\<rparr>
   \<and> (\<exists>fl. flagParse (atoi testRuntime) (defaultFlags (DefaultConfiguration (NumCPU testRuntime)))
               [''--cache-size'', ''50MB''] = Inr fl
           \<and> parseSize (unicodeUpper testRuntime) (cacheSize fl) = Inr 52428800
           \<and> parseSize (unicodeUpper testRuntime) (binaryThreshold fl) = Inr 1048576)"
proof -
  have h1: "whiteSpace '' ''" by code_simp
  have h2: "digits ''50''" by code_simp
  have "map upperByte ''mb'' = ''MB''" by code_simp
  then have h3: "unitMultiplier ''mb'' = Some 1048576" by (simp add: unitMultiplier_def)
  have h4: "decimal ''50'' * 1048576 < 2 ^ 63" by (simp add: decimal_def byte_def)
  have h5: "\<not> isDecimalInt (numericPart id ''12.5GB'')" by code_simp
  have h6: "main testRuntime [''--cache-size'', ''50MB''] =
         InitComponents \<lparr>CacheSize = 52428800, ParallelOps = 16, BinaryThreshold = 1048576,
           VSCodeAPIEnabled = True, DebugMode = False, LogLevel = ''info''\<rparr>" by code_simp
  show ?thesis
    using parseSize_decimal [of "'' ''" "'' ''" "''50''" "''mb''" 1048576 id "''12.5GB''"
        testRuntime "[''--cache-size'', ''50MB'']"
        "\<lparr>CacheSize = 52428800, ParallelOps = 16, BinaryThreshold = 1048576,
           VSCodeAPIEnabled = True, DebugMode = False, LogLevel = ''info''\<rparr>"]
      h1 h2 h3 h4 h5 h6
    by simp
qed

text \<open>
  C6 as it is written fails where the number or the product does not fit 64 signed bits:
  \<open>2^63\<close> without a suffix is an error, and \<open>2^53\<close> with \<open>KB\<close> is returned as
  \<open>-2^63\<close>.
\<close>

theorem parseSize_decimal_counterexample:
  "digits ''9223372036854775808'' \<and> decimal ''9223372036854775808'' = 2 ^ 63
   \<and> parseSize id ''9223372036854775808'' = Inl ''invalid size format: 9223372036854775808''
   \<and> digits ''9007199254740992'' \<and> decimal ''9007199254740992'' * 1024 = 2 ^ 63
   \<and> parseSize id ''9007199254740992KB'' = Inr (- (2 ^ 63))
   \<and> sint (- (2 ^ 63) :: int64) = - (2 ^ 63)"
proof -
  have "digits ''9223372036854775808''" by code_simp
  moreover have "decimal ''9223372036854775808'' = 2 ^ 63" by (simp add: decimal_def byte_def)
  moreover have "parseSize id ''9223372036854775808''
      = Inl ''invalid size format: 9223372036854775808''" by code_simp
  moreover have "digits ''9007199254740992''" by code_simp
  moreover have "decimal ''9007199254740992'' * 1024 = 2 ^ 63" by (simp add: decimal_def byte_def)
  moreover have "parseSize id ''9007199254740992KB'' = Inr (- (2 ^ 63))" by code_simp
  moreover have "sint (- (2 ^ 63) :: int64) = - (2 ^ 63)" by simp
  ultimately show ?thesis by (intro conjI)
qed

text \<open>
  C9, as the code has it. For every negative decimal integer \<open>-n\<close>, with or without a
  suffix, whose product with the suffix's factor is at least \<open>-2^63\<close>, \<open>parseSize\<close>
  succeeds and returns that product, a negative byte count. Whatever values \<open>parseSize\<close>
  returns for the cache size and the binary threshold, negative and zero included, \<open>main\<close>
  takes them into the configuration and goes on. \<open>parseSize\<close> returns an error exactly
  when \<open>ParseInt\<close> does on the numeric part.
\<close>

theorem parseSize_negative:
  "(whiteSpace ws1 \<and> whiteSpace ws2 \<and> digits ds \<and> 0 < decimal ds
      \<and> unitMultiplier sfx = Some m \<and> decimal ds * m \<le> 2 ^ 63
    \<longrightarrow> (\<exists>v. parseSize up (ws1 @ ''-'' @ ds @ sfx @ ws2) = Inr v
           \<and> sint v = - int (decimal ds * m) \<and> sint v < 0))
   \<and> (flagParse (atoi rt) (defaultFlags (DefaultConfiguration (NumCPU rt))) args = Inr fl
      \<and> \<not> version fl
      \<and> parseSize (unicodeUpper rt) (cacheSize fl) = Inr c
      \<and> parseSize (unicodeUpper rt) (binaryThreshold fl) = Inr b
    \<longrightarrow> (\<exists>cfg. (main rt args = RunBenchmark cfg \<or> main rt args = InitComponents cfg)
           \<and> CacheSize cfg = c \<and> BinaryThreshold cfg = b))
   \<and> ((\<exists>msg. parseSize up s = Inl msg) \<longleftrightarrow> (\<exists>e. ParseInt (numericPart up s) = Inl e))"
proof (intro conjI impI)
  assume a: "whiteSpace ws1 \<and> whiteSpace ws2 \<and> digits ds \<and> 0 < decimal ds
      \<and> unitMultiplier sfx = Some m \<and> decimal ds * m \<le> 2 ^ 63"
  then have dg: "digits ds" and pos: "0 < decimal ds" and small: "decimal ds * m \<le> 2 ^ 63"
    by simp_all
  have m1: "1 \<le> m" using a unitMultiplier_cases [of sfx m] by auto
  have iv: "intVal (CHR ''-'' # ds) = - int (decimal ds)"
    using signed_decimal(2) [of "''-''" ds] dg by simp
  have "decimal ds * 1 \<le> decimal ds * m" using m1 by (intro mult_le_mono2)
  then have "decimal ds \<le> decimal ds * m" by (simp only: mult_1_right)
  then have "decimal ds \<le> 2 ^ 63" using small by (rule le_trans)
  then have fit: "fitsInt64 (intVal (CHR ''-'' # ds))" by (simp add: iv fitsInt64_def)
  define k where "k = decimal ds * m"
  have kpos: "0 < k" using pos m1 by (simp add: k_def)
  have "k \<le> 2 ^ 63" using small by (simp add: k_def)
  then have "fitsInt64 (- int k)" by (simp add: fitsInt64_def)
  then have sk: "sint (word_of_int (- int k) :: int64) = - int k" by (rule sint_word_of_int)
  have "parseSize up (ws1 @ CHR ''-'' # ds @ sfx @ ws2)
          = Inr (word_of_int (intVal (CHR ''-'' # ds) * int m))"
    using parseSize_signed_decimal [of ws1 ws2 "''-''" ds sfx m up] a fit by simp
  moreover have "intVal (CHR ''-'' # ds) * int m = - int k" by (simp add: iv k_def)
  ultimately have "parseSize up (ws1 @ CHR ''-'' # ds @ sfx @ ws2) = Inr (word_of_int (- int k))"
    by (simp only:)
  then show "\<exists>v. parseSize up (ws1 @ ''-'' @ ds @ sfx @ ws2) = Inr v
           \<and> sint v = - int (decimal ds * m) \<and> sint v < 0"
    using sk kpos by (simp add: k_def)
next
  assume "flagParse (atoi rt) (defaultFlags (DefaultConfiguration (NumCPU rt))) args = Inr fl
      \<and> \<not> version fl
      \<and> parseSize (unicodeUpper rt) (cacheSize fl) = Inr c
      \<and> parseSize (unicodeUpper rt) (binaryThreshold fl) = Inr b"
  then show "\<exists>cfg. (main rt args = RunBenchmark cfg \<or> main rt args = InitComponents cfg)
           \<and> CacheSize cfg = c \<and> BinaryThreshold cfg = b"
    using main_sizes [of rt args fl c b] by blast
next
  show "(\<exists>msg. parseSize up s = Inl msg) \<longleftrightarrow> (\<exists>e. ParseInt (numericPart up s) = Inl e)"
    by (cases "ParseInt (numericPart up s)") (simp_all add: parseSize_numericPart)
qed

theorem parseSize_negative_witness:
  "whiteSpace [] \<and> digits ''5'' \<and> 0 < decimal ''5'' \<and> unitMultiplier ''MB'' = Some 1048576
   \<and> decimal ''5'' * 1048576 \<le> 2 ^ 63
   \<and> (\<exists>v. parseSize id ([] @ ''-'' @ ''5'' @ ''MB'' @ []) = Inr v
           \<and> sint v = - int (decimal ''5'' * 1048576) \<and> sint v < 0)
   \<and> flagParse (atoi testRuntime) (defaultFlags (DefaultConfiguration (NumCPU testRuntime)))
        [''--cache-size'', ''-5MB'', ''--binary-threshold'', ''0'']
      = Inr \<lparr>cacheSize = ''-5MB'', parallelOps = 16, binaryThreshold = ''0'', vsCodeAPI = True,
             debugMode = False, logLevel = ''info'', version = False, benchmark = False\<rparr>
   \<and> parseSize (unicodeUpper testRuntime) ''-5MB'' = Inr (- 5242880)
   \<and> parseSize (unicodeUpper testRuntime) ''0'' = Inr 0
   \<and> (\<exists>cfg. (main testRuntime [''--cache-size'', ''-5MB'', ''--binary-threshold'', ''0''] = RunBenchmark cfg
              \<or> main testRuntime [''--cache-size'', ''-5MB'', ''--binary-threshold'', ''0''] = InitComponents cfg)
           \<and> CacheSize cfg = - 5242880 \<and> BinaryThreshold cfg = 0)
   \<and> (\<exists>msg. parseSize id ''-'' = Inl msg) \<and> (\<exists>e. ParseInt (numericPart id ''-'') = Inl e)"
proof -
  let ?fl = "\<lparr>cacheSize = ''-5MB'', parallelOps = 16, binaryThreshold = ''0'', vsCodeAPI = True,
             debugMode = False, logLevel = ''info'', version = False, benchmark = False\<rparr>"
  let ?args = "[''--cache-size'', ''-5MB'', ''--binary-threshold'', ''0'']"
  have h1: "whiteSpace []" by code_simp
  have h2: "digits ''5''" by code_simp
  have h3: "0 < decimal ''5''" by (simp add: decimal_def byte_def)
  have h4: "unitMultiplier ''MB'' = Some 1048576" by (simp add: unitMultiplier_def upperByte_def byte_def)
  have h5: "decimal ''5'' * 1048576 \<le> 2 ^ 63" by (simp add: decimal_def byte_def)
  have h6: "flagParse (atoi testRuntime) (defaultFlags (DefaultConfiguration (NumCPU testRuntime)))
        ?args = Inr ?fl" by code_simp
  have h7: "\<not> version ?fl" by simp
  have h8: "parseSize (unicodeUpper testRuntime) (cacheSize ?fl) = Inr (- 5242880)" by code_simp
  have h9: "parseSize (unicodeUpper testRuntime) (binaryThreshold ?fl) = Inr 0" by code_simp
  have h10: "ParseInt (numericPart id ''-'') = Inl ErrSyntax" by code_simp
  show ?thesis
    using parseSize_negative [of "[]" "[]" "''5''" "''MB''" 1048576 id testRuntime ?args ?fl
        "- 5242880" 0 "''-''"] h1 h2 h3 h4 h5 h6 h7 h8 h9 h10
    by simp
qed

text \<open>
  C9 as it is written fails where the number or the product leaves 64 signed bits:
  \<open>-9000000000GB\<close> is returned as a positive byte count, and \<open>-2^63 - 1\<close> is an error.
\<close>

theorem parseSize_negative_counterexample:
  "parseSize id ''-9000000000GB'' = Inr 8783067657709551616
   \<and> sint (8783067657709551616 :: int64) = 8783067657709551616
   \<and> parseSize id ''-9223372036854775809'' = Inl ''invalid size format: -9223372036854775809''"
proof -
  have "parseSize id ''-9000000000GB'' = Inr 8783067657709551616" by code_simp
  moreover have "sint (8783067657709551616 :: int64) = 8783067657709551616" by simp
  moreover have "parseSize id ''-9223372036854775809''
     = Inl ''invalid size format: -9223372036854775809''" by code_simp
  ultimately show ?thesis by (intro conjI)
qed

text \<open>
  C10. Whenever the numeric part parses as an \<open>int64\<close> \<open>n\<close>, \<open>parseSize\<close> returns, with
  no error, \<open>n\<close> times the multiplier as 64-bit multiplication leaves it: reduced modulo
  \<open>2^64\<close> and read as a signed integer. For \<open>9000000000GB\<close> that value is negative,
  and smaller than \<open>n\<close>.
\<close>

theorem parseSize_overflow:
  "(ParseInt (numericPart up s) = Inr n
    \<longrightarrow> parseSize up s = Inr (n * unitOf up s)
        \<and> sint (n * unitOf up s) = wrap64 (sint n * sint (unitOf up s)))
   \<and> ParseInt (numericPart up ''9000000000GB'') = Inr 9000000000
   \<and> unitOf up ''9000000000GB'' = 1073741824
   \<and> parseSize up ''9000000000GB'' = Inr (9000000000 * 1073741824)
   \<and> sint (9000000000 * 1073741824 :: int64) = - 8783067657709551616
   \<and> wrap64 (9000000000 * 1073741824) = - 8783067657709551616"
proof (intro conjI impI)
  assume "ParseInt (numericPart up s) = Inr n"
  then show "parseSize up s = Inr (n * unitOf up s)" by (simp add: parseSize_numericPart)
next
  show "sint (n * unitOf up s) = wrap64 (sint n * sint (unitOf up s))" by (rule sint_mult_wrap64)
next
  show "ParseInt (numericPart up ''9000000000GB'') = Inr 9000000000" by code_simp
next
  show "unitOf up ''9000000000GB'' = 1073741824" by code_simp
next
  show "parseSize up ''9000000000GB'' = Inr (9000000000 * 1073741824)" by code_simp
next
  show "sint (9000000000 * 1073741824 :: int64) = - 8783067657709551616" by simp
next
  show "wrap64 (9000000000 * 1073741824) = - 8783067657709551616" by (simp add: wrap64_def)
qed

theorem parseSize_overflow_witness:
  "ParseInt (numericPart id ''4611686018427387904KB'') = Inr 4611686018427387904
   \<and> parseSize id ''4611686018427387904KB''
       = Inr (4611686018427387904 * unitOf id ''4611686018427387904KB'')
   \<and> sint (4611686018427387904 * unitOf id ''4611686018427387904KB'')
       = wrap64 (sint (4611686018427387904 :: int64) * sint (unitOf id ''4611686018427387904KB''))"
proof -
  have h: "ParseInt (numericPart id ''4611686018427387904KB'') = Inr 4611686018427387904"
    by code_simp
  show ?thesis
    using parseSize_overflow [of id "''4611686018427387904KB''" 4611686018427387904] h
    by blast
qed

text \<open>
  C7. For a CPU count \<open>c\<close> from 1 on (below \<open>2^62\<close>, so that its double is an \<open>int\<close>),
  the default \<open>ParallelOps\<close> is \<open>min (2 * c) 16\<close>; the default cache size is 100 MiB
  and the default binary threshold 1 MiB.
\<close>

theorem DefaultConfiguration_defaults:
  assumes "1 \<le> sint c" and "sint c < 2 ^ 62"
  shows "sint (ParallelOps (DefaultConfiguration c)) = min (2 * sint c) 16
       \<and> sint (CacheSize (DefaultConfiguration c)) = 100 * 2 ^ 20
       \<and> sint (BinaryThreshold (DefaultConfiguration c)) = 2 ^ 20"
proof -
  have "c * 2 = word_of_int (sint c * 2)" by simp
  moreover have "fitsInt64 (sint c * 2)" using assms by (simp add: fitsInt64_def)
  ultimately have d: "sint (c * 2) = sint c * 2" using sint_word_of_int by metis
  have "(16 <s c * 2) = (16 < sint c * 2)" by (simp add: word_sless_alt d)
  then show ?thesis using d by (simp add: DefaultConfiguration_def Let_def min_def)
qed

theorem DefaultConfiguration_defaults_witness:
  "1 \<le> sint (3 :: goint) \<and> sint (3 :: goint) < 2 ^ 62
   \<and> sint (ParallelOps (DefaultConfiguration 3)) = min (2 * sint (3 :: goint)) 16
   \<and> sint (ParallelOps (DefaultConfiguration 3)) = 6
   \<and> sint (CacheSize (DefaultConfiguration 3)) = 100 * 2 ^ 20
   \<and> sint (BinaryThreshold (DefaultConfiguration 3)) = 2 ^ 20
   \<and> 1 \<le> sint (12 :: goint) \<and> sint (12 :: goint) < 2 ^ 62
   \<and> sint (ParallelOps (DefaultConfiguration 12)) = 16"
proof -
  have h1: "1 \<le> sint (3 :: goint)" by simp
  have h2: "sint (3 :: goint) < 2 ^ 62" by simp
  have k1: "1 \<le> sint (12 :: goint)" by simp
  have k2: "sint (12 :: goint) < 2 ^ 62" by simp
  show ?thesis
    using DefaultConfiguration_defaults [OF h1 h2] DefaultConfiguration_defaults [OF k1 k2]
      h1 h2 k1 k2
    by simp
qed

text \<open>
  C8, on the code. \<open>main\<close> defines no flag for the allowed directories: the option the
  README documents as required is refused as not defined, and a start without it goes on
  to the components with the default configuration, in which no directory is named.
\<close>

theorem main_without_allowed_dirs:
  "formal ''allowed-dirs'' = None
   \<and> main rt [''--allowed-dirs'', ''/srv/data''] = FlagFailure (NotDefined ''allowed-dirs'')
   \<and> main rt [] = InitComponents (DefaultConfiguration (NumCPU rt))"
proof (intro conjI)
  show f: "formal ''allowed-dirs'' = None" by code_simp
  have "splitValue ''allowed-dirs'' = (''allowed-dirs'', None)" by code_simp
  then show "main rt [''--allowed-dirs'', ''/srv/data''] = FlagFailure (NotDefined ''allowed-dirs'')"
    using f by (simp add: main_def Let_def)
  show "main rt [] = InitComponents (DefaultConfiguration (NumCPU rt))"
    by (simp add: main_def Let_def defaultFlags_def parseSize_defaults DefaultConfiguration_def)
qed

section \<open>The scheduler's admission control\<close>

lemma submit_inv: "schedInv s \<Longrightarrow> schedInv (snd (submit s t))"
  by (auto simp: schedInv_def submit_def)

lemma finish_inv:
  assumes "schedInv s"
  shows "schedInv (finish s t)"
proof (cases "t \<in> set (running s)")
  case False
  then show ?thesis using assms by (simp add: finish_def)
next
  case True
  then have pos: "0 < length (running s)" by (rule length_pos_if_in_set)
  have len: "length (remove1 t (running s)) = length (running s) - 1"
    using True by (simp add: length_remove1)
  show ?thesis
  proof (cases "waiting s")
    case Nil
    then have "finish s t = s\<lparr>running := remove1 t (running s)\<rparr>"
      using True by (simp add: finish_def)
    then show ?thesis using assms Nil len by (simp add: schedInv_def)
  next
    case (Cons n ns)
    then have f: "finish s t = s\<lparr>running := remove1 t (running s) @ [n], waiting := ns\<rparr>"
      using True by (simp add: finish_def)
    have full: "length (running s) = poolSize s" using assms Cons by (simp add: schedInv_def)
    have "length (remove1 t (running s) @ [n]) = poolSize s" using len pos full by simp
    moreover have "length ns \<le> queueBound s" using assms Cons by (simp add: schedInv_def)
    ultimately show ?thesis unfolding f by (simp add: schedInv_def)
  qed
qed

lemma cancel_inv: "schedInv s \<Longrightarrow> schedInv (cancel s t)"
  by (auto simp: schedInv_def cancel_def intro: le_trans [OF length_removeAll_less_eq])

lemma schedStep_inv: "schedInv s \<Longrightarrow> schedInv (schedStep s ev)"
  by (cases ev) (simp_all add: submit_inv finish_inv cancel_inv)

lemma schedStep_bounds:
  "poolSize (schedStep s ev) = poolSize s \<and> queueBound (schedStep s ev) = queueBound s"
  by (cases ev) (auto simp: submit_def finish_def cancel_def split: list.splits)

lemma schedRun_inv:
  "schedInv s \<Longrightarrow> schedInv (schedRun s evs) \<and> poolSize (schedRun s evs) = poolSize s
     \<and> queueBound (schedRun s evs) = queueBound s"
  unfolding schedRun_def
proof (induction evs arbitrary: s)
  case Nil
  then show ?case by simp
next
  case (Cons ev evs)
  have "schedInv (schedStep s ev)" using Cons.prems by (rule schedStep_inv)
  from Cons.IH [OF this] show ?case by (simp add: schedStep_bounds)
qed

lemma schedInv_pending:
  assumes "schedInv s"
  shows "pending s \<le> poolSize s + queueBound s"
proof -
  have "length (running s) \<le> poolSize s" "length (waiting s) \<le> queueBound s"
    using assms by (simp_all add: schedInv_def)
  then show ?thesis unfolding pending_def by (rule add_mono)
qed

lemma submit_full:
  "length (running s) = poolSize s \<Longrightarrow> length (waiting s) = queueBound s \<Longrightarrow>
     submit s t = (Overloaded, s)"
  by (simp add: submit_def)

lemma submit_free:
  assumes "schedInv s"
  shows "fst (submit s t) = Overloaded \<longleftrightarrow> free s = 0"
    and "free (snd (submit s t)) = free s - 1"
  using assms by (auto simp: schedInv_def submit_def free_def pending_def)

lemma submitAll_answers:
  "schedInv s \<Longrightarrow>
     \<exists>ok. fst (submitAll s ts) = ok @ replicate (length ts - free s) Overloaded
        \<and> Overloaded \<notin> set ok \<and> length ok = min (length ts) (free s)"
proof (induction ts arbitrary: s)
  case Nil
  then show ?case by simp
next
  case (Cons t ts)
  let ?s' = "snd (submit s t)"
  have inv': "schedInv ?s'" using Cons.prems by (rule submit_inv)
  from Cons.IH [OF inv'] obtain ok where
    ok: "fst (submitAll ?s' ts) = ok @ replicate (length ts - free ?s') Overloaded"
      "Overloaded \<notin> set ok" "length ok = min (length ts) (free ?s')"
    by blast
  have fr: "free ?s' = free s - 1" using Cons.prems by (rule submit_free(2))
  have split: "fst (submitAll s (t # ts)) = fst (submit s t) # fst (submitAll ?s' ts)"
    by (simp add: split_beta)
  show ?case
  proof (cases "free s = 0")
    case True
    then have o: "fst (submit s t) = Overloaded" by (simp add: submit_free(1) [OF Cons.prems])
    have f0: "free ?s' = 0" using fr True by simp
    have "ok = []" using ok(3) f0 by simp
    then have "fst (submitAll ?s' ts) = replicate (length ts) Overloaded"
      using ok(1) f0 by simp
    then have "fst (submitAll s (t # ts)) = replicate (Suc (length ts)) Overloaded"
      unfolding split o by simp
    then have "fst (submitAll s (t # ts)) = [] @ replicate (length (t # ts) - free s) Overloaded"
      using True by simp
    moreover have "Overloaded \<notin> set []" by simp
    moreover have "length [] = min (length (t # ts)) (free s)" using True by simp
    ultimately show ?thesis by blast
  next
    case False
    then have a: "fst (submit s t) \<noteq> Overloaded" by (simp add: submit_free(1) [OF Cons.prems])
    have eq: "length (t # ts) - free s = length ts - free ?s'" using False fr by simp
    have "fst (submitAll s (t # ts))
        = (fst (submit s t) # ok) @ replicate (length (t # ts) - free s) Overloaded"
      unfolding split ok(1) eq by simp
    moreover have "Overloaded \<notin> set (fst (submit s t) # ok)" using a ok(2) by auto
    moreover have "length (fst (submit s t) # ok) = min (length (t # ts)) (free s)"
      using ok(3) fr False by simp
    ultimately show ?thesis by blast
  qed
qed

lemma newScheduler_inv: "schedInv (newScheduler p q)"
  by (simp add: schedInv_def newScheduler_def)

text \<open>
  C4. With every worker busy and the queue full, a further \<open>submit\<close> answers
  \<open>Overloaded\<close> and queues nothing. Of the submissions made while no worker finishes, as
  many are admitted as the scheduler has room for, and exactly the excess is answered
  \<open>Overloaded\<close>: from an idle scheduler the first \<open>ParallelOps + queueBound\<close> are
  admitted. Through any history of submissions, completions and cancellations the
  scheduler never holds more than \<open>ParallelOps + queueBound\<close> tasks.
\<close>

theorem scheduler_backpressure:
  "(length (running s0) = poolSize s0 \<and> length (waiting s0) = queueBound s0
      \<longrightarrow> submit s0 t = (Overloaded, s0))
   \<and> (schedInv s
      \<longrightarrow> (\<exists>ok. fst (submitAll s ts) = ok @ replicate (length ts - free s) Overloaded
             \<and> Overloaded \<notin> set ok \<and> length ok = min (length ts) (free s)))
   \<and> (schedInv s \<longrightarrow> pending (schedRun s evs) \<le> poolSize s + queueBound s)
   \<and> schedInv (newScheduler p q) \<and> free (newScheduler p q) = p + q
   \<and> pending (schedRun (newScheduler p q) evs) \<le> p + q"
proof (intro conjI impI)
  assume "length (running s0) = poolSize s0 \<and> length (waiting s0) = queueBound s0"
  then show "submit s0 t = (Overloaded, s0)" by (simp add: submit_full)
next
  assume "schedInv s"
  then show "\<exists>ok. fst (submitAll s ts) = ok @ replicate (length ts - free s) Overloaded
             \<and> Overloaded \<notin> set ok \<and> length ok = min (length ts) (free s)"
    by (rule submitAll_answers)
next
  assume "schedInv s"
  then have "schedInv (schedRun s evs)" "poolSize (schedRun s evs) = poolSize s"
    "queueBound (schedRun s evs) = queueBound s"
    using schedRun_inv by blast+
  then show "pending (schedRun s evs) \<le> poolSize s + queueBound s"
    using schedInv_pending [of "schedRun s evs"] by simp
next
  show "schedInv (newScheduler p q)" by (rule newScheduler_inv)
next
  show "free (newScheduler p q) = p + q" by (simp add: free_def pending_def newScheduler_def)
next
  have "schedInv (schedRun (newScheduler p q) evs)
      \<and> poolSize (schedRun (newScheduler p q) evs) = p
      \<and> queueBound (schedRun (newScheduler p q) evs) = q"
    using schedRun_inv [of "newScheduler p q" evs] newScheduler_inv [of p q]
    by (simp add: newScheduler_def)
  then show "pending (schedRun (newScheduler p q) evs) \<le> p + q"
    using schedInv_pending [of "schedRun (newScheduler p q) evs"] by simp
qed


theorem scheduler_backpressure_witness:
  "length (running \<lparr>poolSize = 1, queueBound = 1, running = [1 :: nat], waiting = [2]\<rparr>) = 1
   \<and> submit \<lparr>poolSize = 1, queueBound = 1, running = [1 :: nat], waiting = [2]\<rparr> 3
       = (Overloaded, \<lparr>poolSize = 1, queueBound = 1, running = [1], waiting = [2]\<rparr>)
   \<and> schedInv (newScheduler 2 1 :: nat Scheduler)
   \<and> free (newScheduler 2 1 :: nat Scheduler) = 3
   \<and> fst (submitAll (newScheduler 2 1) [1 :: nat, 2, 3, 4, 5])
       = [Started, Started, Queued, Overloaded, Overloaded]
   \<and> (\<exists>ok. fst (submitAll (newScheduler 2 1) [1 :: nat, 2, 3, 4, 5]) = ok @ replicate 2 Overloaded
        \<and> Overloaded \<notin> set ok \<and> length ok = 3)
   \<and> pending (schedRun (newScheduler 2 1)
         [Submit (1 :: nat), Submit 2, Submit 3, Submit 4, Finish 1, Submit 5, Submit 6]) \<le> 3"
proof -
  let ?full = "\<lparr>poolSize = 1, queueBound = 1, running = [1 :: nat], waiting = [2]\<rparr>"
  let ?new = "newScheduler 2 1 :: nat Scheduler"
  let ?ts = "[1 :: nat, 2, 3, 4, 5]"
  let ?evs = "[Submit (1 :: nat), Submit 2, Submit 3, Submit 4, Finish 1, Submit 5, Submit 6]"
  note inst = scheduler_backpressure [of ?full 3 ?new ?ts ?evs 2 1]
  have h1: "length (running ?full) = poolSize ?full \<and> length (waiting ?full) = queueBound ?full"
    by simp
  have h2: "schedInv ?new" using inst by blast
  have h3: "free ?new = 3" by (simp add: free_def pending_def newScheduler_def)
  have h4: "fst (submitAll ?new ?ts) = [Started, Started, Queued, Overloaded, Overloaded]"
    by (simp add: newScheduler_def submit_def)
  have c1: "submit ?full 3 = (Overloaded, ?full)" using inst h1 by blast
  have c2: "\<exists>ok. fst (submitAll ?new ?ts) = ok @ replicate (length ?ts - free ?new) Overloaded
        \<and> Overloaded \<notin> set ok \<and> length ok = min (length ?ts) (free ?new)"
    using inst h2 by blast
  have c3: "pending (schedRun ?new ?evs) \<le> poolSize ?new + queueBound ?new"
    using inst h2 by blast
  have p: "poolSize ?new + queueBound ?new = 3" by (simp add: newScheduler_def)
  have l: "length ?ts - free ?new = 2" "min (length ?ts) (free ?new) = 3" unfolding h3 by simp_all
  show ?thesis
    using h1 h2 h3 h4 c1 c2 [unfolded l] c3 [unfolded p] by (intro conjI) simp_all
qed

section \<open>The cache stays within its capacity\<close>

lemma find_identity:
  "find (\<lambda>e. identity e = ident) es = Some e \<Longrightarrow> e \<in> set es \<and> identity e = ident"
  by (induction es) (auto split: if_splits)

lemma find_identity_None:
  "find (\<lambda>e. identity e = ident) es = None \<Longrightarrow> ident \<notin> identity ` set es"
  by (induction es) (auto split: if_splits)

lemma filter_absent:
  "ident \<notin> identity ` set es \<Longrightarrow> filter (\<lambda>x. identity x \<noteq> ident) es = es"
  by (induction es) auto

text \<open>Taking the one entry of an identity off the list takes its size off the sum.\<close>

lemma sum_filter_identity:
  assumes "distinct (map identity es)" "find (\<lambda>e. identity e = ident) es = Some e"
  shows "sum_list (map entrySize (filter (\<lambda>x. identity x \<noteq> ident) es)) + entrySize e
           = sum_list (map entrySize es)"
  using assms
proof (induction es)
  case Nil
  then show ?case by simp
next
  case (Cons x es)
  show ?case
  proof (cases "identity x = ident")
    case True
    then have "e = x" using Cons.prems(2) by simp
    moreover have "ident \<notin> identity ` set es" using Cons.prems(1) True by auto
    ultimately show ?thesis using True by (simp add: filter_absent)
  next
    case False
    then have "find (\<lambda>e. identity e = ident) es = Some e" using Cons.prems(2) by simp
    moreover have "distinct (map identity es)" using Cons.prems(1) by simp
    ultimately have "sum_list (map entrySize (filter (\<lambda>x. identity x \<noteq> ident) es)) + entrySize e
           = sum_list (map entrySize es)" by (rule Cons.IH [rotated])
    then show ?thesis using False by simp
  qed
qed

lemma invalidate_capacity: "capacity (invalidate c ident) = capacity c"
  by (simp add: invalidate_def split: option.splits)

lemma invalidate_entries:
  "entries (invalidate c ident) = filter (\<lambda>x. identity x \<noteq> ident) (entries c)"
proof (cases "lookup c ident")
  case None
  then have "ident \<notin> identity ` set (entries c)"
    unfolding lookup_def by (rule find_identity_None)
  then show ?thesis using None by (simp add: invalidate_def filter_absent)
next
  case (Some e)
  then show ?thesis by (simp add: invalidate_def)
qed

lemma invalidate_inv:
  assumes "cacheInv c"
  shows "cacheInv (invalidate c ident)"
proof (cases "lookup c ident")
  case None
  then show ?thesis using assms by (simp add: invalidate_def)
next
  case (Some e)
  have d: "distinct (map identity (entries c))" using assms by (simp add: cacheInv_def)
  have s: "liveBytes (invalidate c ident) + entrySize e = liveBytes c"
    unfolding liveBytes_def invalidate_entries
    using d Some unfolding lookup_def by (rule sum_filter_identity)
  have t: "totalBytes (invalidate c ident) = totalBytes c - entrySize e"
    using Some by (simp add: invalidate_def)
  have "totalBytes c = liveBytes c" "liveBytes c \<le> capacity c"
    using assms by (simp_all add: cacheInv_def)
  then have "totalBytes (invalidate c ident) = liveBytes (invalidate c ident)"
    and "liveBytes (invalidate c ident) \<le> capacity c"
    using s t by simp_all
  moreover have "distinct (map identity (entries (invalidate c ident)))"
    unfolding invalidate_entries using d by (simp add: distinct_map_filter)
  ultimately show ?thesis by (simp add: cacheInv_def invalidate_capacity)
qed

lemma invalidate_absent: "ident \<notin> identity ` set (entries (invalidate c ident))"
  by (auto simp: invalidate_entries)

lemma invalidate_subset: "set (entries (invalidate c x)) \<subseteq> set (entries c)"
  by (auto simp: invalidate_entries)

lemma evict_props:
  "cacheInv c \<Longrightarrow>
     cacheInv (evict n vs c) \<and> capacity (evict n vs c) = capacity c
       \<and> set (entries (evict n vs c)) \<subseteq> set (entries c)"
proof (induction vs arbitrary: c)
  case Nil
  then show ?case by simp
next
  case (Cons v vs)
  show ?case
  proof (cases "totalBytes c + n \<le> capacity c")
    case True
    then show ?thesis using Cons.prems by simp
  next
    case False
    have "cacheInv (invalidate c (identity v))" using Cons.prems by (rule invalidate_inv)
    from Cons.IH [OF this] show ?thesis
      using False invalidate_subset [of c "identity v"] by (auto simp: invalidate_capacity)
  qed
qed


lemma evict_capacity: "capacity (evict n vs c) = capacity c"
  by (induction vs arbitrary: c) (simp_all add: invalidate_capacity)

lemma put_capacity: "capacity (put decay now c ident bytes) = capacity c"
  by (simp add: put_def Let_def invalidate_capacity evict_capacity)

lemma put_oversize: "capacity c < length bytes \<Longrightarrow> put decay now c ident bytes = c"
  by (simp add: put_def Let_def)

lemma put_inv:
  assumes "cacheInv c"
  shows "cacheInv (put decay now c ident bytes)"
proof (cases "capacity c < length bytes")
  case True
  then show ?thesis using assms by (simp add: put_oversize)
next
  case False
  define n where "n = length bytes"
  define c0 where "c0 = invalidate c ident"
  define c1 where "c1 = (if totalBytes c0 + n > capacity c0
                  then evict n (candidates decay now c0) c0 else c0)"
  have inv0: "cacheInv c0" unfolding c0_def using assms by (rule invalidate_inv)
  have abs0: "ident \<notin> identity ` set (entries c0)" unfolding c0_def by (rule invalidate_absent)
  have inv1: "cacheInv c1" and sub1: "set (entries c1) \<subseteq> set (entries c0)"
    unfolding c1_def using evict_props [OF inv0] inv0 by auto
  have abs1: "ident \<notin> identity ` set (entries c1)" using abs0 sub1 by auto
  have p: "put decay now c ident bytes =
      (if totalBytes c1 + n \<le> capacity c1
       then c1\<lparr>entries := entries c1 @
                  [\<lparr>identity = ident, content = bytes, entrySize = n,
                    lastAccess = now, accessCount = 1, pinned = False\<rparr>],
                totalBytes := totalBytes c1 + n\<rparr>
       else c1)"
    using False by (simp add: put_def Let_def n_def c0_def c1_def)
  show ?thesis
  proof (cases "totalBytes c1 + n \<le> capacity c1")
    case room: True
    have "totalBytes c1 = liveBytes c1" "distinct (map identity (entries c1))"
      using inv1 by (simp_all add: cacheInv_def)
    then show ?thesis using room abs1 unfolding p by (simp add: cacheInv_def liveBytes_def)
  next
    case False
    then show ?thesis using inv1 unfolding p by simp
  qed
qed

text \<open>An update of an entry that keeps its identity and its size keeps the invariant.\<close>

lemma updateEntry_inv:
  assumes "cacheInv c" and "\<And>e. identity (f e) = identity e \<and> entrySize (f e) = entrySize e"
  shows "cacheInv (updateEntry f c ident) \<and> capacity (updateEntry f c ident) = capacity c"
proof -
  let ?g = "\<lambda>x. if identity x = ident then f x else x"
  have co: "identity \<circ> ?g = identity" "entrySize \<circ> ?g = entrySize"
    using assms(2) by (auto simp: fun_eq_iff)
  show ?thesis using assms(1) by (simp add: cacheInv_def liveBytes_def updateEntry_def co)
qed

lemma pin_capacity: "capacity (pin c ident) = capacity c" "capacity (unpin c ident) = capacity c"
  by (simp_all add: pin_def unpin_def updateEntry_def)

lemma get_inv: "cacheInv c \<Longrightarrow> cacheInv (snd (get fs now c ident))"
  by (auto simp: get_def touch_def invalidate_inv updateEntry_inv split: option.splits)

lemma get_capacity: "capacity (snd (get fs now c ident)) = capacity c"
  by (auto simp: get_def invalidate_capacity updateEntry_def split: option.splits)

lemma pin_inv: "cacheInv c \<Longrightarrow> cacheInv (pin c ident)"
  by (simp add: pin_def updateEntry_inv)

lemma unpin_inv: "cacheInv c \<Longrightarrow> cacheInv (unpin c ident)"
  by (simp add: unpin_def updateEntry_inv)

lemma read_state:
  "snd (read decay fs now c p) =
     (case statFile fs p of
        None \<Rightarrow> c
      | Some ident \<Rightarrow>
          (case get fs now c ident of
             (Some e, c') \<Rightarrow> c'
           | (None, c') \<Rightarrow>
               (case contents fs p of
                  None \<Rightarrow> c'
                | Some bytes \<Rightarrow>
                    if length bytes > capacity c' then c' else put decay now c' ident bytes)))"
  by (simp add: read_def split: option.splits prod.splits)

lemma read_inv:
  assumes "cacheInv c"
  shows "cacheInv (snd (read decay fs now c p))"
proof (cases "statFile fs p")
  case None
  then show ?thesis using assms by (simp add: read_state)
next
  case (Some ident)
  obtain r c' where g: "get fs now c ident = (r, c')" by (cases "get fs now c ident")
  have "cacheInv c'" using get_inv [OF assms, of fs now ident] g by simp
  then show ?thesis using Some g
    by (auto simp: read_state put_inv split: option.splits)
qed

lemma read_capacity: "capacity (snd (read decay fs now c p)) = capacity c"
proof (cases "statFile fs p")
  case None
  then show ?thesis by (simp add: read_state)
next
  case (Some ident)
  obtain r c' where g: "get fs now c ident = (r, c')" by (cases "get fs now c ident")
  have "capacity c' = capacity c" using get_capacity [of fs now c ident] g by simp
  then show ?thesis using Some g
    by (auto simp: read_state put_capacity split: option.splits)
qed

lemma cacheStep_inv:
  "cacheInv c \<Longrightarrow> cacheInv (cacheStep decay c ev) \<and> capacity (cacheStep decay c ev) = capacity c"
proof -
  assume inv: "cacheInv c"
  obtain fs now op where ev: "ev = (fs, now, op)" by (cases ev)
  show ?thesis unfolding ev using inv
    by (cases op)
      (simp_all add: get_inv get_capacity put_inv put_capacity invalidate_inv invalidate_capacity
        pin_inv unpin_inv pin_capacity read_inv read_capacity)
qed

lemma cacheRun_inv:
  "cacheInv c \<Longrightarrow> cacheInv (cacheRun decay c hist) \<and> capacity (cacheRun decay c hist) = capacity c"
  unfolding cacheRun_def
proof (induction hist arbitrary: c)
  case Nil
  then show ?case by simp
next
  case (Cons ev hist)
  have s: "cacheInv (cacheStep decay c ev)" "capacity (cacheStep decay c ev) = capacity c"
    using cacheStep_inv [OF Cons.prems] by simp_all
  from Cons.IH [OF s(1)] s(2) show ?case by simp
qed

lemma newCache_inv: "cacheInv (newCache cap)"
  by (simp add: cacheInv_def newCache_def liveBytes_def)


lemma read_bypass:
  assumes "capacity c < length bytes" "statFile fs p = Some ident" "contents fs p = Some bytes"
    "lookup c ident = None"
  shows "read decay fs now c p = (Inr bytes, c)"
  using assms by (simp add: read_def get_def)

lemma entry_le_liveBytes: "e \<in> set (entries c) \<Longrightarrow> entrySize e \<le> liveBytes c"
  unfolding liveBytes_def by (induction "entries c" arbitrary: c) (auto simp: member_le_sum_list)

text \<open>
  C1. Between the operations of any history (\<open>get\<close>, \<open>put\<close>, \<open>invalidate\<close>, pin, unpin,
  read), from a cache within its capacity and so from the empty one, the sizes of the live
  entries sum to at most the capacity. A \<open>put\<close> of content larger than the capacity
  leaves the cache as it is, a read of such content that misses returns it without a
  \<open>put\<close>, and no live entry is ever larger than the capacity.
\<close>

theorem cache_capacity_invariant:
  "(cacheInv c \<longrightarrow> cacheInv (cacheRun decay c hist)
       \<and> liveBytes (cacheRun decay c hist) \<le> capacity c
       \<and> (\<forall>e \<in> set (entries (cacheRun decay c hist)). entrySize e \<le> capacity c))
   \<and> cacheInv (newCache cap) \<and> capacity (newCache cap) = cap
   \<and> liveBytes (cacheRun decay (newCache cap) hist) \<le> cap
   \<and> (capacity c < length bytes \<longrightarrow> put decay now c ident bytes = c)
   \<and> (capacity c < length bytes \<and> statFile fs p = Some ident \<and> contents fs p = Some bytes
        \<and> lookup c ident = None
      \<longrightarrow> read decay fs now c p = (Inr bytes, c))"
proof (intro conjI impI ballI)
  assume inv: "cacheInv c"
  then have r: "cacheInv (cacheRun decay c hist)" "capacity (cacheRun decay c hist) = capacity c"
    using cacheRun_inv by blast+
  show "cacheInv (cacheRun decay c hist)" by (rule r(1))
  show b: "liveBytes (cacheRun decay c hist) \<le> capacity c"
    using r by (simp add: cacheInv_def)
  fix e assume "e \<in> set (entries (cacheRun decay c hist))"
  then have "entrySize e \<le> liveBytes (cacheRun decay c hist)" by (rule entry_le_liveBytes)
  then show "entrySize e \<le> capacity c" using b by (rule le_trans)
next
  show "cacheInv (newCache cap)" by (rule newCache_inv)
next
  show "capacity (newCache cap) = cap" by (simp add: newCache_def)
next
  have "cacheInv (cacheRun decay (newCache cap) hist)
      \<and> capacity (cacheRun decay (newCache cap) hist) = capacity (newCache cap)"
    by (rule cacheRun_inv [OF newCache_inv])
  then show "liveBytes (cacheRun decay (newCache cap) hist) \<le> cap"
    by (simp add: cacheInv_def newCache_def)
next
  assume "capacity c < length bytes"
  then show "put decay now c ident bytes = c" by (rule put_oversize)
next
  assume "capacity c < length bytes \<and> statFile fs p = Some ident \<and> contents fs p = Some bytes
        \<and> lookup c ident = None"
  then show "read decay fs now c p = (Inr bytes, c)" by (simp add: read_bypass)
qed

theorem cache_capacity_invariant_witness:
  "cacheInv (newCache 10)
   \<and> entries (cacheRun testDecay (newCache 10)
         [(testFiles, 1, Read ''/a''), (testFiles, 2, Read ''/b''), (testFiles, 3, Read ''/a''),
          (testFiles, 4, Read ''/c'')])
       = [\<lparr>identity = \<lparr>idPath = ''/a'', idMtime = 1, idSize = 4\<rparr>, content = ''aaaa'',
            entrySize = 4, lastAccess = 3, accessCount = 2, pinned = False\<rparr>,
          \<lparr>identity = \<lparr>idPath = ''/b'', idMtime = 1, idSize = 6\<rparr>, content = ''bbbbbb'',
            entrySize = 6, lastAccess = 2, accessCount = 1, pinned = False\<rparr>]
   \<and> liveBytes (cacheRun testDecay (newCache 10)
         [(testFiles, 1, Read ''/a''), (testFiles, 2, Read ''/b''), (testFiles, 3, Read ''/a''),
          (testFiles, 4, Read ''/c'')]) \<le> capacity (newCache 10)
   \<and> entrySize \<lparr>identity = \<lparr>idPath = ''/b'', idMtime = 1, idSize = 6\<rparr>, content = ''bbbbbb'',
            entrySize = 6, lastAccess = 2, accessCount = 1, pinned = False\<rparr> \<le> capacity (newCache 10)
   \<and> capacity (newCache 10) < length ''cccccccccccc''
   \<and> put testDecay 4 (newCache 10) \<lparr>idPath = ''/c'', idMtime = 1, idSize = 12\<rparr> ''cccccccccccc''
       = newCache 10
   \<and> statFile testFiles ''/c'' = Some \<lparr>idPath = ''/c'', idMtime = 1, idSize = 12\<rparr>
   \<and> contents testFiles ''/c'' = Some ''cccccccccccc''
   \<and> lookup (newCache 10) \<lparr>idPath = ''/c'', idMtime = 1, idSize = 12\<rparr> = None
   \<and> read testDecay testFiles 4 (newCache 10) ''/c'' = (Inr ''cccccccccccc'', newCache 10)"
proof -
  let ?c = "newCache 10"
  let ?hist = "[(testFiles, 1, Read ''/a''), (testFiles, 2, Read ''/b''), (testFiles, 3, Read ''/a''),
          (testFiles, 4, Read ''/c'')]"
  let ?id = "\<lparr>idPath = ''/c'', idMtime = 1, idSize = 12\<rparr>"
  let ?a = "\<lparr>identity = \<lparr>idPath = ''/a'', idMtime = 1, idSize = 4\<rparr>, content = ''aaaa'',
            entrySize = 4, lastAccess = 3, accessCount = 2, pinned = False\<rparr>"
  let ?b = "\<lparr>identity = \<lparr>idPath = ''/b'', idMtime = 1, idSize = 6\<rparr>, content = ''bbbbbb'',
            entrySize = 6, lastAccess = 2, accessCount = 1, pinned = False\<rparr>"
  note inst = cache_capacity_invariant [where c = ?c and decay = testDecay and hist = ?hist
      and cap = 10 and bytes = "''cccccccccccc''" and now = 4 and ident = ?id and fs = testFiles
      and p = "''/c''"]
  have h1: "cacheInv ?c" using inst by blast
  have h2: "capacity ?c < length ''cccccccccccc''" by (simp add: newCache_def)
  have h3: "statFile testFiles ''/c'' = Some ?id" by (simp add: statFile_def testFiles_def)
  have h4: "contents testFiles ''/c'' = Some ''cccccccccccc''" by (simp add: testFiles_def)
  have h5: "lookup ?c ?id = None" by (simp add: lookup_def newCache_def)
  have v: "entries (cacheRun testDecay ?c ?hist) = [?a, ?b]" by code_simp
  then have m: "?b \<in> set (entries (cacheRun testDecay ?c ?hist))" by simp
  show ?thesis using inst h1 h2 h3 h4 h5 v m by blast
qed

section \<open>A failed safe write leaves the file as it was\<close>

lemma writeSafe_success:
  assumes "tempOf nm path \<noteq> path" "backupOf nm path \<noteq> path"
      "tempOf nm path \<noteq> backupOf nm path"
    and "\<not> pinHeld st path" "\<not> fails WriteTemp" "\<not> fails CopyBackup" "\<not> fails Rename"
  shows "fst (writeSafe nm fails now st path bytes backup) = Inr ()
       \<and> contents (files (snd (writeSafe nm fails now st path bytes backup))) path = Some bytes
       \<and> contents (files (snd (writeSafe nm fails now st path bytes backup))) (tempOf nm path) = None
       \<and> (backup \<and> contents (files st) path \<noteq> None \<longrightarrow>
            contents (files (snd (writeSafe nm fails now st path bytes backup))) (backupOf nm path)
              = contents (files st) path)"
  using assms by (auto simp: writeSafe_def Let_def split: option.splits)

text \<open>
  C3. Let the pin be taken and the temporary file written, and let a later step fail: the
  backup copy or the rename (the steps on the cache, invalidate and unpin, cannot fail).
  Then \<open>writeSafe\<close> returns the error of that step, the file at \<open>path\<close> has the content
  and the modification time it had, the temporary file is gone, and a backup that was
  created holds the original content.
\<close>

theorem writeSafe_failure_atomic:
  assumes "tempOf nm path \<noteq> path" and "backupOf nm path \<noteq> path"
    and "tempOf nm path \<noteq> backupOf nm path"
    and "\<not> pinHeld st path" and "\<not> fails WriteTemp"
    and "fails Rename \<or> (backup \<and> contents (files st) path \<noteq> None \<and> fails CopyBackup)"
  shows "(fst (writeSafe nm fails now st path bytes backup) = Inl (IOError CopyBackup)
          \<or> fst (writeSafe nm fails now st path bytes backup) = Inl (IOError Rename))
       \<and> contents (files (snd (writeSafe nm fails now st path bytes backup))) path
           = contents (files st) path
       \<and> mtimes (files (snd (writeSafe nm fails now st path bytes backup))) path
           = mtimes (files st) path
       \<and> contents (files (snd (writeSafe nm fails now st path bytes backup))) (tempOf nm path) = None
       \<and> (backup \<and> \<not> fails CopyBackup \<and> contents (files st) path = Some old
            \<longrightarrow> contents (files (snd (writeSafe nm fails now st path bytes backup))) (backupOf nm path)
                  = Some old)"
proof (cases "backup \<and> contents (files st) path \<noteq> None \<and> fails CopyBackup")
  case True
  then show ?thesis using assms(1-5)
    by (simp add: writeSafe_def Let_def discardTemp_def)
next
  case False
  then have "fails Rename" using assms(6) by blast
  then show ?thesis using assms(1-5) False
    by (auto simp: writeSafe_def Let_def discardTemp_def split: option.splits)
qed

theorem writeSafe_failure_atomic_witness:
  "tempOf testNaming ''/a'' \<noteq> ''/a'' \<and> backupOf testNaming ''/a'' \<noteq> ''/a''
   \<and> tempOf testNaming ''/a'' \<noteq> backupOf testNaming ''/a''
   \<and> \<not> pinHeld testStore ''/a'' \<and> \<not> failsAt Rename WriteTemp \<and> failsAt Rename Rename
   \<and> contents (files testStore) ''/a'' = Some ''aaaa''
   \<and> fst (writeSafe testNaming (failsAt Rename) 5 testStore ''/a'' ''new'' True) = Inl (IOError Rename)
   \<and> contents (files (snd (writeSafe testNaming (failsAt Rename) 5 testStore ''/a'' ''new'' True))) ''/a''
       = Some ''aaaa''
   \<and> contents (files (snd (writeSafe testNaming (failsAt Rename) 5 testStore ''/a'' ''new'' True)))
         (tempOf testNaming ''/a'') = None
   \<and> contents (files (snd (writeSafe testNaming (failsAt Rename) 5 testStore ''/a'' ''new'' True)))
         (backupOf testNaming ''/a'') = Some ''aaaa''"
proof -
  have n: "tempOf testNaming ''/a'' \<noteq> ''/a''" "backupOf testNaming ''/a'' \<noteq> ''/a''"
    "tempOf testNaming ''/a'' \<noteq> backupOf testNaming ''/a''"
    by (simp_all add: testNaming_def)
  have h: "\<not> pinHeld testStore ''/a''"
    by (simp add: pinHeld_def testStore_def testFiles_def statFile_def lookup_def newCache_def)
  have f: "\<not> failsAt Rename WriteTemp" "failsAt Rename Rename" "\<not> failsAt Rename CopyBackup"
    by (simp_all add: failsAt_def)
  have o: "contents (files testStore) ''/a'' = Some ''aaaa''"
    by (simp add: testStore_def testFiles_def)
  note inst = writeSafe_failure_atomic [where nm = testNaming and path = "''/a''"
      and st = testStore and fails = "failsAt Rename" and backup = True and now = 5
      and bytes = "''new''" and old = "''aaaa''"]
  have e: "fst (writeSafe testNaming (failsAt Rename) 5 testStore ''/a'' ''new'' True)
       \<noteq> Inl (IOError CopyBackup)"
    using h f by (simp add: writeSafe_def Let_def o)
  show ?thesis using inst n h f o e by simp
qed

section \<open>The path guard admits canonical paths under an allowed directory only\<close>

lemma clean_butlast: "clean p \<Longrightarrow> clean (butlast p)"
  by (auto simp: clean_def dest: in_set_butlastD)

lemma clean_snoc: "clean p \<Longrightarrow> s \<noteq> [] \<Longrightarrow> s \<noteq> ''.'' \<Longrightarrow> s \<noteq> ''..'' \<Longrightarrow> clean (p @ [s])"
  by (auto simp: clean_def)

lemma mem_upt_Suc: "n \<in> set [1..<Suc k] \<longleftrightarrow> 1 \<le> n \<and> n \<le> k"
  by (simp only: set_upt atLeastLessThan_iff less_Suc_eq_le)

lemma linkFree_iff:
  "linkFree t p \<longleftrightarrow> (\<forall>n. 1 \<le> n \<and> n \<le> length p \<longrightarrow> \<not> isLink (t (take n p)))"
  unfolding linkFree_def using mem_upt_Suc [of _ "length p"] by blast

lemma dirPath_iff:
  "dirPath t p \<longleftrightarrow> clean p \<and> (\<forall>n. 1 \<le> n \<and> n \<le> length p \<longrightarrow> t (take n p) = Some Directory)"
  unfolding dirPath_def using mem_upt_Suc [of _ "length p"] by blast

lemma dirPath_Nil: "dirPath t []"
  by (simp add: dirPath_iff clean_def)

lemma take_butlast_le:
  assumes "n \<le> length (butlast p)"
  shows "take n (butlast p) = take n p"
proof -
  have "n \<le> length p - 1" using assms by simp
  then have "min n (length p - 1) = n" by (rule min_absorb1)
  then show ?thesis by (simp only: butlast_conv_take take_take)
qed

lemma dirPath_butlast:
  assumes "dirPath t p"
  shows "dirPath t (butlast p)"
  unfolding dirPath_iff
proof (intro conjI allI impI)
  show "clean (butlast p)" using assms by (simp add: dirPath_iff clean_butlast)
next
  fix n assume n: "1 \<le> n \<and> n \<le> length (butlast p)"
  then have le: "n \<le> length p - 1" by simp
  have "take n (butlast p) = take n p" using n by (simp only: take_butlast_le)
  moreover have "n \<le> length p" using le by simp
  ultimately show "t (take n (butlast p)) = Some Directory"
    using assms n unfolding dirPath_iff by simp
qed

lemma dirPath_snoc:
  assumes "dirPath t p" "s \<noteq> []" "s \<noteq> ''.''" "s \<noteq> ''..''" "t (p @ [s]) = Some Directory"
  shows "dirPath t (p @ [s])"
  unfolding dirPath_iff
proof (intro conjI allI impI)
  show "clean (p @ [s])" using assms by (simp add: dirPath_iff clean_snoc)
next
  fix n assume n: "1 \<le> n \<and> n \<le> length (p @ [s])"
  show "t (take n (p @ [s])) = Some Directory"
  proof (cases "n \<le> length p")
    case True
    then show ?thesis using assms(1) n unfolding dirPath_iff by simp
  next
    case False
    then have "n = Suc (length p)" using n by simp
    then show ?thesis using assms(5) by simp
  qed
qed

lemma dirPath_canonicalPath: "dirPath t p \<Longrightarrow> canonicalPath t m p"
proof (cases "p = []")
  case True
  then show ?thesis by (simp add: canonicalPath_def)
next
  case False
  assume d: "dirPath t p"
  have "1 \<le> length p \<and> length p \<le> length p" using False by (simp add: Suc_le_eq)
  then have "t (take (length p) p) = Some Directory" using d unfolding dirPath_iff by blast
  then have "endsAt m (t p)" by (simp add: endsAt_def)
  moreover have "clean p" using d by (simp add: dirPath_iff)
  moreover have "dirPath t (butlast p)" using d by (rule dirPath_butlast)
  ultimately show ?thesis unfolding canonicalPath_def by blast
qed

lemma canonicalPath_snoc:
  "dirPath t p \<Longrightarrow> s \<noteq> [] \<Longrightarrow> s \<noteq> ''.'' \<Longrightarrow> s \<noteq> ''..'' \<Longrightarrow> endsAt m (t (p @ [s]))
     \<Longrightarrow> canonicalPath t m (p @ [s])"
  by (simp add: canonicalPath_def dirPath_iff clean_snoc)

text \<open>What \<open>walk\<close> finds from a path of directories is a canonical path.\<close>

lemma walk_canonicalPath:
  "walk t m fuel cur pend = Found p \<Longrightarrow> dirPath t cur \<Longrightarrow> canonicalPath t m p"
proof (induction t m fuel cur pend rule: walk.induct)
  case (1 t m fuel cur)
  then show ?case by (simp add: dirPath_canonicalPath)
next
  case (2 t m fuel cur s rest)
  show ?case
  proof (cases "s = [] \<or> s = ''.''")
    case True
    then show ?thesis using 2 by simp
  next
    case dot: False
    show ?thesis
    proof (cases "s = ''..''")
      case True
      then show ?thesis using 2 dot by (simp add: dirPath_butlast)
    next
      case up: False
      have plain: "s \<noteq> []" "s \<noteq> ''.''" "s \<noteq> ''..''" using dot up by simp_all
      note snoc = canonicalPath_snoc [OF "2.prems"(2) plain]
      show ?thesis
      proof (cases "t (cur @ [s])")
        case None
        then have "rest = [] \<and> \<not> m \<and> p = cur @ [s]"
          using "2.prems"(1) dot up by (simp split: if_splits)
        then show ?thesis using snoc [of m] None by (simp add: endsAt_def)
      next
        case (Some node)
        show ?thesis
        proof (cases node)
          case Directory
          then have "dirPath t (cur @ [s])"
            using "2.prems"(2) Some plain by (simp add: dirPath_snoc)
          then show ?thesis using 2 dot up Some Directory by simp
        next
          case RegularFile
          then have "p = cur @ [s]"
            using "2.prems"(1) dot up Some by (simp split: if_splits)
          then show ?thesis using snoc [of m] Some RegularFile by (simp add: endsAt_def)
        next
          case (Symlink target)
          show ?thesis
          proof (cases fuel)
            case 0
            then show ?thesis using "2.prems"(1) dot up Some Symlink by simp
          next
            case (Suc fuel')
            have "dirPath t (if isAbsolute target then [] else cur)"
              using "2.prems"(2) by (simp add: dirPath_Nil)
            moreover have "walk t m fuel' (if isAbsolute target then [] else cur)
                (splitPath target @ rest) = Found p"
              using "2.prems"(1) dot up Some Symlink Suc by simp
            ultimately show ?thesis
              using "2.IH"(4) [OF dot up Some Symlink Suc] by blast
          qed
        qed
      qed
    qed
  qed
qed

lemma canonicalPath_clean: "canonicalPath t m p \<Longrightarrow> clean p"
  by (auto simp: canonicalPath_def clean_def)

lemma endsAt_isLink: "endsAt m n \<Longrightarrow> \<not> isLink n"
  by (auto simp: endsAt_def isLink_def split: option.splits Node.splits)

lemma canonicalPath_linkFree:
  assumes "canonicalPath t m p"
  shows "linkFree t p"
proof (cases "p = []")
  case True
  then show ?thesis by (simp add: linkFree_iff)
next
  case False
  then have d: "dirPath t (butlast p)" and e: "endsAt m (t p)"
    using assms by (simp_all add: canonicalPath_def)
  show ?thesis unfolding linkFree_iff
  proof (intro allI impI)
    fix n assume n: "1 \<le> n \<and> n \<le> length p"
    show "\<not> isLink (t (take n p))"
    proof (cases "n = length p")
      case True
      then show ?thesis using e by (simp add: endsAt_isLink)
    next
      case False
      have "n < length p" using False n by simp
      then have le: "n \<le> length (butlast p)" by simp
      then have "t (take n (butlast p)) = Some Directory"
        using d n unfolding dirPath_iff by blast
      then have "t (take n p) = Some Directory" using le by (simp only: take_butlast_le)
      then show ?thesis by (simp add: isLink_def)
    qed
  qed
qed

text \<open>A canonical path resolves to itself, whatever the number of links allowed.\<close>

lemma walk_fixed:
  "dirPath t cur \<Longrightarrow> canonicalPath t m (cur @ q) \<Longrightarrow> walk t m fuel cur q = Found (cur @ q)"
proof (induction q arbitrary: cur)
  case Nil
  show ?case by simp
next
  case (Cons s q)
  have cl: "clean (cur @ s # q)" using Cons.prems(2) by (rule canonicalPath_clean)
  then have plain: "s \<noteq> []" "s \<noteq> ''.''" "s \<noteq> ''..''" by (auto simp: clean_def)
  have parts: "dirPath t (butlast (cur @ s # q))" "endsAt m (t (cur @ s # q))"
    using Cons.prems(2) by (simp_all add: canonicalPath_def)
  show ?case
  proof (cases "q = []")
    case True
    then have "endsAt m (t (cur @ [s]))" using parts(2) by simp
    then show ?thesis using True plain
      by (auto simp: endsAt_def split: option.splits Node.splits)
  next
    case False
    then have b: "butlast (cur @ s # q) = (cur @ [s]) @ butlast q" by (simp add: butlast_append)
    have "1 \<le> Suc (length cur) \<and> Suc (length cur) \<le> length ((cur @ [s]) @ butlast q)" by simp
    then have "t (take (Suc (length cur)) ((cur @ [s]) @ butlast q)) = Some Directory"
      using parts(1) unfolding b dirPath_iff by blast
    then have dir: "t (cur @ [s]) = Some Directory" by simp
    have d: "dirPath t (cur @ [s])" using Cons.prems(1) plain dir by (rule dirPath_snoc)
    have "canonicalPath t m ((cur @ [s]) @ q)" using Cons.prems(2) by simp
    then have "walk t m fuel (cur @ [s]) q = Found ((cur @ [s]) @ q)"
      using Cons.IH [OF d] by blast
    then show ?thesis using plain dir by simp
  qed
qed

text \<open>Where no symbolic link is, the place a path leads to is the place its segments
  say.\<close>

lemma walk_lexical:
  "\<forall>q. \<not> isLink (t q) \<Longrightarrow> place (walk t m fuel cur pend) = Some (lexical cur pend)"
proof (induction t m fuel cur pend rule: walk.induct)
  case (1 t m fuel cur)
  show ?case by (simp add: place_def)
next
  case (2 t m fuel cur s rest)
  have "\<not> isLink (t (cur @ [s]))" using "2.prems" by blast
  then have nl: "t (cur @ [s]) \<noteq> Some (Symlink x)" for x by (auto simp: isLink_def)
  show ?case
  proof (cases "t (cur @ [s])")
    case None
    then show ?thesis using 2 by (simp add: place_def)
  next
    case (Some node)
    then show ?thesis using 2 nl by (cases node) (simp_all add: place_def)
  qed
qed

text \<open>Through directories \<open>walk\<close> goes down segment by segment.\<close>

lemma walk_down:
  "clean ds \<Longrightarrow> (\<forall>k. 1 \<le> k \<and> k \<le> length ds \<longrightarrow> t (cur @ take k ds) = Some Directory)
     \<Longrightarrow> walk t m fuel cur (ds @ rest) = walk t m fuel (cur @ ds) rest"
proof (induction ds arbitrary: cur)
  case Nil
  show ?case by simp
next
  case (Cons d ds)
  have plain: "d \<noteq> []" "d \<noteq> ''.''" "d \<noteq> ''..''" using Cons.prems(1) by (auto simp: clean_def)
  have "t (cur @ take 1 (d # ds)) = Some Directory" using Cons.prems(2) by force
  then have dir: "t (cur @ [d]) = Some Directory" by simp
  have cl: "clean ds" using Cons.prems(1) by (simp add: clean_def)
  have "\<forall>k. 1 \<le> k \<and> k \<le> length ds \<longrightarrow> t ((cur @ [d]) @ take k ds) = Some Directory"
  proof (intro allI impI)
    fix k assume k: "1 \<le> k \<and> k \<le> length ds"
    then have "t (cur @ take (Suc k) (d # ds)) = Some Directory" using Cons.prems(2) by force
    then show "t ((cur @ [d]) @ take k ds) = Some Directory" by simp
  qed
  then have "walk t m fuel (cur @ [d]) (ds @ rest) = walk t m fuel ((cur @ [d]) @ ds) rest"
    using Cons.IH [OF cl] by blast
  then show ?case using plain dir by simp
qed

lemma walk_dirPath:
  assumes "dirPath t wd"
  shows "walk t m fuel [] (wd @ rest) = walk t m fuel wd rest"
  using walk_down [of wd t "[]" m fuel rest] assms unfolding dirPath_iff by simp

text \<open>A resolution that ends is the same with more links allowed.\<close>

lemma walk_mono:
  "walk t m fuel cur pend \<noteq> TooManyLinks \<Longrightarrow>
     walk t m (fuel + j) cur pend = walk t m fuel cur pend"
proof (induction t m fuel cur pend rule: walk.induct)
  case (1 t m fuel cur)
  show ?case by simp
next
  case (2 t m fuel cur s rest)
  show ?case
  proof (cases "s = [] \<or> s = ''.''")
    case True
    then show ?thesis using 2 by simp
  next
    case dot: False
    show ?thesis
    proof (cases "s = ''..''")
      case True
      then show ?thesis using 2 dot by simp
    next
      case up: False
      show ?thesis
      proof (cases "t (cur @ [s])")
        case None
        then show ?thesis using dot up by simp
      next
        case (Some node)
        show ?thesis
        proof (cases node)
          case Directory
          then show ?thesis using 2 dot up Some by simp
        next
          case RegularFile
          then show ?thesis using dot up Some by simp
        next
          case (Symlink target)
          show ?thesis
          proof (cases fuel)
            case 0
            then show ?thesis using "2.prems" dot up Some Symlink by simp
          next
            case (Suc fuel')
            have "walk t m fuel' (if isAbsolute target then [] else cur)
                (splitPath target @ rest) \<noteq> TooManyLinks"
              using "2.prems" dot up Some Symlink Suc by simp
            then have "walk t m (fuel' + j) (if isAbsolute target then [] else cur)
                (splitPath target @ rest)
              = walk t m fuel' (if isAbsolute target then [] else cur) (splitPath target @ rest)"
              using "2.IH"(4) [OF dot up Some Symlink Suc] by blast
            then show ?thesis using dot up Some Symlink Suc by simp
          qed
        qed
      qed
    qed
  qed
qed

lemma walk_mono_le:
  assumes "walk t m k cur pend \<noteq> TooManyLinks" "k \<le> k'"
  shows "walk t m k' cur pend = walk t m k cur pend"
  using walk_mono [OF assms(1), of "k' - k"] assms(2) by simp

text \<open>\<open>walk\<close> finds a path exactly when the rules of the resolution lead to it.\<close>

lemma walk_leadsTo:
  "walk t m k cur pend = Found p \<Longrightarrow> leadsTo t m k cur pend p"
proof (induction t m k cur pend rule: walk.induct)
  case (1 t m fuel cur)
  then show ?case by (simp add: leadsTo.arrived)
next
  case (2 t m fuel cur s rest)
  show ?case
  proof (cases "s = [] \<or> s = ''.''")
    case True
    then show ?thesis using 2 by (simp add: leadsTo.stay)
  next
    case dot: False
    show ?thesis
    proof (cases "s = ''..''")
      case True
      then show ?thesis using 2 dot by (simp add: leadsTo.parent)
    next
      case up: False
      have plain: "s \<noteq> []" "s \<noteq> ''.''" "s \<noteq> ''..''" using dot up by simp_all
      show ?thesis
      proof (cases "t (cur @ [s])")
        case None
        then have "rest = [] \<and> \<not> m \<and> p = cur @ [s]"
          using "2.prems" dot up by (simp split: if_splits)
        then show ?thesis using leadsTo.fresh [of s t cur m fuel] plain None by simp
      next
        case (Some node)
        show ?thesis
        proof (cases node)
          case Directory
          then have d: "t (cur @ [s]) = Some Directory" using Some by simp
          have "leadsTo t m fuel (cur @ [s]) rest p" using 2 dot up d by simp
          then show ?thesis using leadsTo.down [of s t cur m fuel rest p] plain d by blast
        next
          case RegularFile
          then have f: "t (cur @ [s]) = Some RegularFile" using Some by simp
          have "rest = [] \<and> p = cur @ [s]"
            using "2.prems" dot up f by (simp split: if_splits)
          then show ?thesis using leadsTo.regular [of s t cur m fuel] plain f by simp
        next
          case (Symlink target)
          then have l: "t (cur @ [s]) = Some (Symlink target)" using Some by simp
          show ?thesis
          proof (cases fuel)
            case 0
            then show ?thesis using "2.prems" dot up l by simp
          next
            case (Suc fuel')
            have "walk t m fuel' (if isAbsolute target then [] else cur)
                (splitPath target @ rest) = Found p"
              using "2.prems" dot up l Suc by simp
            then have "leadsTo t m fuel' (if isAbsolute target then [] else cur)
                (splitPath target @ rest) p"
              using "2.IH"(4) [OF dot up Some Symlink Suc] by blast
            then show ?thesis using leadsTo.link [of s t cur target m fuel' rest p] plain l Suc by blast
          qed
        qed
      qed
    qed
  qed
qed

lemma leadsTo_walk:
  "leadsTo t m k cur pend p \<Longrightarrow> walk t m k cur pend = Found p"
  by (induction rule: leadsTo.induct) auto

lemma canonical_leadsTo:
  "canonical g t m raw = Found p
     \<longleftrightarrow> leadsTo t m (maxLinks g) [] ((if isAbsolute raw then [] else workingDir g) @ splitPath raw) p"
  unfolding canonical_def using walk_leadsTo leadsTo_walk by blast

lemma resolve_Inr_iff:
  "resolve g t m raw = Inr p \<longleftrightarrow> canonical g t m raw = Found p \<and> allowed g p"
  by (auto simp: resolve_def split: Resolution.splits)

lemma resolve_denied_iff:
  "resolve g t m raw = Inl AccessDenied
     \<longleftrightarrow> \<not> (\<exists>pl. place (canonical g t m raw) = Some pl \<and> allowed g pl)"
  by (auto simp: resolve_def place_def split: Resolution.splits)

lemma resolve_missing_iff:
  "resolve g t m raw = Inl NotFound \<longleftrightarrow> (\<exists>p. canonical g t m raw = Missing p \<and> allowed g p)"
  by (auto simp: resolve_def split: Resolution.splits)

lemma canonical_canonicalPath:
  "canonical g t m raw = Found p \<Longrightarrow> canonicalPath t m p"
  unfolding canonical_def using walk_canonicalPath [OF _ dirPath_Nil] by blast

lemma splitPath_dotdot:
  "splitPath (concat (replicate n ''../'') @ r) = replicate n ''..'' @ splitPath r"
proof (induction n)
  case 0
  show ?case by simp
next
  case (Suc n)
  have "splitPath (''../'' @ x) = ''..'' # splitPath x" for x
    by (cases "splitPath x") simp_all
  then show ?case using Suc by simp
qed

lemma walk_dotdot:
  "walk t m fuel cur (replicate n ''..'' @ rest) = walk t m fuel (take (length cur - n) cur) rest"
proof (induction n arbitrary: cur)
  case 0
  show ?case by simp
next
  case (Suc n)
  have "walk t m fuel cur (replicate (Suc n) ''..'' @ rest)
      = walk t m fuel (butlast cur) (replicate n ''..'' @ rest)" by simp
  also have "\<dots> = walk t m fuel (take (length (butlast cur) - n) (butlast cur)) rest"
    by (rule Suc.IH)
  also have "take (length (butlast cur) - n) (butlast cur) = take (length cur - Suc n) cur"
    by (simp add: butlast_conv_take min_def)
  finally show ?case .
qed

lemma canonical_root:
  "canonical g t m (CHR ''/'' # r) = walk t m (maxLinks g) [] (splitPath r)"
  by (simp add: canonical_def isAbsolute_def)

lemma canonical_traversal:
  assumes "dirPath t (workingDir g)" "length (workingDir g) \<le> Suc n"
  shows "canonical g t m (concat (replicate (Suc n) ''../'') @ r) = canonical g t m (CHR ''/'' # r)"
proof -
  have "\<not> isAbsolute (concat (replicate (Suc n) ''../'') @ r)" by (simp add: isAbsolute_def)
  then have "canonical g t m (concat (replicate (Suc n) ''../'') @ r)
      = walk t m (maxLinks g) [] (workingDir g @ replicate (Suc n) ''..'' @ splitPath r)"
    unfolding canonical_def by (simp only: splitPath_dotdot if_False)
  also have "\<dots> = walk t m (maxLinks g) (workingDir g) (replicate (Suc n) ''..'' @ splitPath r)"
    using assms(1) by (rule walk_dirPath)
  also have "\<dots> = walk t m (maxLinks g)
      (take (length (workingDir g) - Suc n) (workingDir g)) (splitPath r)"
    by (rule walk_dotdot)
  also have "\<dots> = walk t m (maxLinks g) [] (splitPath r)" using assms(2) by simp
  finally show ?thesis by (simp only: canonical_root)
qed

lemma resolve_traversal:
  assumes "dirPath t (workingDir g)" "length (workingDir g) \<le> Suc n"
  shows "resolve g t m (concat (replicate (Suc n) ''../'') @ r) = resolve g t m (CHR ''/'' # r)"
  unfolding resolve_def by (simp only: canonical_traversal [OF assms])

lemma canonical_lexical:
  assumes "\<forall>q. \<not> isLink (t q)"
  shows "place (canonical g t m raw)
           = Some (lexical [] ((if isAbsolute raw then [] else workingDir g) @ splitPath raw))"
  unfolding canonical_def using assms by (rule walk_lexical)

text \<open>The segments of a joined path are the segments joined.\<close>

lemma splitPath_segment:
  "CHR ''/'' \<notin> set s \<Longrightarrow> splitPath (s @ CHR ''/'' # x) = s # splitPath x"
  by (induction s) auto

lemma splitPath_last: "CHR ''/'' \<notin> set s \<Longrightarrow> splitPath s = [s]"
  by (induction s) auto

lemma splitPath_join:
  "noSlash p \<Longrightarrow> p \<noteq> [] \<Longrightarrow> splitPath (concat (map (\<lambda>s. CHR ''/'' # s) p)) = [] # p"
proof (induction p)
  case Nil
  then show ?case by simp
next
  case (Cons s p)
  have s: "CHR ''/'' \<notin> set s" using Cons.prems(1) by (simp add: noSlash_def)
  show ?case
  proof (cases "p = []")
    case True
    then show ?thesis using s by (simp add: splitPath_last)
  next
    case False
    have "noSlash p" using Cons.prems(1) by (simp add: noSlash_def)
    then have ih: "splitPath (concat (map (\<lambda>s. CHR ''/'' # s) p)) = [] # p"
      using Cons.IH False by blast
    obtain x where x: "concat (map (\<lambda>s. CHR ''/'' # s) p) = CHR ''/'' # x"
      using False by (cases p) simp_all
    have "splitPath (s @ CHR ''/'' # x) = s # splitPath x" using s by (rule splitPath_segment)
    moreover have "splitPath x = p" using ih unfolding x by simp
    ultimately show ?thesis using x by simp
  qed
qed

lemma canonical_join:
  assumes "canonicalPath t m p" "noSlash p"
  shows "canonical g t m (joinPath p) = Found p"
proof (cases "p = []")
  case True
  then show ?thesis by (simp add: canonical_def joinPath_def isAbsolute_def)
next
  case False
  then have abs: "isAbsolute (joinPath p)"
    by (cases p) (simp_all add: joinPath_def isAbsolute_def)
  have "splitPath (joinPath p) = [] # p"
    using splitPath_join [OF assms(2) False] False by (simp add: joinPath_def)
  then have "canonical g t m (joinPath p) = walk t m (maxLinks g) [] p"
    using abs by (simp add: canonical_def)
  also have "\<dots> = Found ([] @ p)"
    using walk_fixed [of t "[]" m p "maxLinks g"] assms(1) by (simp add: dirPath_Nil)
  finally show ?thesis by simp
qed

lemma resolve_join:
  assumes "canonicalPath t m p" "noSlash p"
  shows "resolve g t m (joinPath p) = (if allowed g p then Inr p else Inl AccessDenied)"
  unfolding resolve_def by (simp add: canonical_join [OF assms])

text \<open>A path is under a directory exactly when the directory's segments are its first
  segments, after the case rule of the platform.\<close>

lemma underDir_take:
  "underDir False d p \<longleftrightarrow> length d \<le> length p \<and> take (length d) p = d"
  by (induction "False" d p rule: underDir.induct) (auto simp: sameSegment_def)

lemma underDir_take_upper:
  "underDir True d p \<longleftrightarrow>
     length d \<le> length p \<and> map (map upperByte) (take (length d) p) = map (map upperByte) d"
  by (induction "True" d p rule: underDir.induct) (auto simp: sameSegment_def)

lemma allowed_take:
  "\<not> caseInsensitive g \<Longrightarrow>
     allowed g q \<longleftrightarrow> (\<exists>d \<in> set (allowedDirs g). length d \<le> length q \<and> take (length d) q = d)"
  by (simp add: allowed_def underDir_take)

lemma allowed_take_upper:
  "caseInsensitive g \<Longrightarrow>
     allowed g q \<longleftrightarrow> (\<exists>d \<in> set (allowedDirs g). length d \<le> length q
        \<and> map (map upperByte) (take (length d) q) = map (map upperByte) d)"
  by (simp add: allowed_def underDir_take_upper)

text \<open>The number of links allowed decides only whether a resolution ends, not where.\<close>

lemma allowed_maxLinks: "allowed (g\<lparr>maxLinks := k\<rparr>) p = allowed g p"
  by (simp add: allowed_def)

lemma canonical_limit:
  "canonical (g\<lparr>maxLinks := k\<rparr>) t m raw
     = walk t m k [] ((if isAbsolute raw then [] else workingDir g) @ splitPath raw)"
  by (simp add: canonical_def)

lemma resolve_more_links:
  assumes "resolve g t m raw = Inr p" "maxLinks g \<le> k"
  shows "resolve (g\<lparr>maxLinks := k\<rparr>) t m raw = Inr p"
proof -
  let ?pend = "(if isAbsolute raw then [] else workingDir g) @ splitPath raw"
  have c: "canonical g t m raw = Found p" and a: "allowed g p"
    using assms(1) by (simp_all add: resolve_Inr_iff)
  have w: "walk t m (maxLinks g) [] ?pend = Found p" using c unfolding canonical_def .
  then have "walk t m (maxLinks g) [] ?pend \<noteq> TooManyLinks" by simp
  then have "walk t m k [] ?pend = walk t m (maxLinks g) [] ?pend"
    using assms(2) by (rule walk_mono_le)
  then have "canonical (g\<lparr>maxLinks := k\<rparr>) t m raw = Found p"
    unfolding canonical_limit using w by simp
  then show ?thesis using a by (simp only: resolve_Inr_iff allowed_maxLinks simp_thms)
qed

lemma resolve_denied_any_limit:
  assumes "place (canonical g t m raw) = Some pl" "\<not> allowed g pl"
  shows "resolve (g\<lparr>maxLinks := k\<rparr>) t m raw = Inl AccessDenied"
proof -
  let ?pend = "(if isAbsolute raw then [] else workingDir g) @ splitPath raw"
  have pl: "place (walk t m (maxLinks g) [] ?pend) = Some pl"
    using assms(1) unfolding canonical_def .
  then have r: "walk t m (maxLinks g) [] ?pend \<noteq> TooManyLinks"
    by (auto simp: place_def)
  show ?thesis
  proof (cases "walk t m k [] ?pend = TooManyLinks")
    case True
    then have "canonical (g\<lparr>maxLinks := k\<rparr>) t m raw = TooManyLinks"
      unfolding canonical_limit .
    then show ?thesis by (simp add: resolve_def)
  next
    case False
    have "walk t m k [] ?pend = walk t m (maxLinks g) [] ?pend"
    proof (cases "k \<le> maxLinks g")
      case True
      show ?thesis using walk_mono_le [OF False True] by (rule sym)
    next
      case gt: False
      then have "maxLinks g \<le> k" by simp
      then show ?thesis using walk_mono_le [OF r] by blast
    qed
    then have "place (canonical (g\<lparr>maxLinks := k\<rparr>) t m raw) = Some pl"
      unfolding canonical_limit using pl by simp
    then show ?thesis using assms(2) by (simp add: resolve_denied_iff allowed_maxLinks)
  qed
qed

text \<open>
  C2. \<open>resolve\<close> succeeds, with the canonical path, exactly when the rules of the
  resolution (symbolic links and \<open>..\<close> resolved, the working directory's too) lead from
  the root to that path and the path is under an allowed directory. It fails with
  \<open>AccessDenied\<close> exactly when the
  path leads to no place under an allowed directory, whether the place it leads to is
  there or not, and with \<open>NotFound\<close> exactly when the path is missing at a place under
  an allowed directory. What \<open>resolve\<close> returns is a canonical path of the file system:
  plain segments, directories above, no symbolic link on its way; and every canonical
  path, written out from the root, resolves to itself and is admitted exactly when it is
  allowed. Where the file system has no symbolic link the place is the one the segments
  say. From a working directory that is a path of directories, a path that climbs with
  \<open>../\<close> to the root and goes on is answered as the path from the root is: with
  \<open>AccessDenied\<close> when that leads out. The number of links the guard follows does not
  open a way: a path admitted is admitted with more links allowed, and a path that
  leads out is denied whatever the number. A path is allowed exactly when the segments of
  an allowed directory are its first segments, up to the case of letters where the
  platform has it so. So \<open>/srv/data/../../etc/passwd\<close>, \<open>../../etc/shadow\<close> (which is
  not there), a path through a link that leads out, a path from a working directory that
  is such a link and a link to itself all fail with \<open>AccessDenied\<close>. \<open>resolve\<close> is a
  function of the configuration, the file system and the path: the model has no state
  that it could change.
\<close>

theorem resolve_allowed_only:
  "(resolve g t m raw = Inr p
      \<longleftrightarrow> leadsTo t m (maxLinks g) []
            ((if isAbsolute raw then [] else workingDir g) @ splitPath raw) p
          \<and> allowed g p)
   \<and> (resolve g t m raw = Inr p \<longleftrightarrow> canonical g t m raw = Found p \<and> allowed g p)
   \<and> (resolve g t m raw = Inl AccessDenied
        \<longleftrightarrow> \<not> (\<exists>pl. place (canonical g t m raw) = Some pl \<and> allowed g pl))
   \<and> (resolve g t m raw = Inl NotFound
        \<longleftrightarrow> (\<exists>p0. canonical g t m raw = Missing p0 \<and> allowed g p0))
   \<and> (resolve g t m raw' = Inr p'
        \<longrightarrow> canonicalPath t m p' \<and> clean p' \<and> linkFree t p' \<and> allowed g p')
   \<and> (canonicalPath t m p'' \<and> noSlash p''
        \<longrightarrow> canonical g t m (joinPath p'') = Found p''
          \<and> resolve g t m (joinPath p'') = (if allowed g p'' then Inr p'' else Inl AccessDenied))
   \<and> ((\<forall>x. \<not> isLink (t x))
        \<longrightarrow> place (canonical g t m raw'')
              = Some (lexical [] ((if isAbsolute raw'' then [] else workingDir g) @ splitPath raw'')))
   \<and> (dirPath t (workingDir g) \<and> length (workingDir g) \<le> Suc n
        \<longrightarrow> resolve g t m (concat (replicate (Suc n) ''../'') @ r) = resolve g t m (CHR ''/'' # r)
          \<and> (\<not> (\<exists>pl. place (canonical g t m (CHR ''/'' # r)) = Some pl \<and> allowed g pl)
               \<longrightarrow> resolve g t m (concat (replicate (Suc n) ''../'') @ r) = Inl AccessDenied))
   \<and> (resolve g t m rawa = Inr pa \<and> maxLinks g \<le> k
        \<longrightarrow> resolve (g\<lparr>maxLinks := k\<rparr>) t m rawa = Inr pa)
   \<and> (place (canonical g t m rawd) = Some pd \<and> \<not> allowed g pd
        \<longrightarrow> resolve (g\<lparr>maxLinks := j\<rparr>) t m rawd = Inl AccessDenied)
   \<and> (\<not> caseInsensitive g
        \<longrightarrow> (allowed g q \<longleftrightarrow> (\<exists>d \<in> set (allowedDirs g). length d \<le> length q \<and> take (length d) q = d)))
   \<and> (caseInsensitive g
        \<longrightarrow> (allowed g q \<longleftrightarrow> (\<exists>d \<in> set (allowedDirs g). length d \<le> length q
              \<and> map (map upperByte) (take (length d) q) = map (map upperByte) d)))
   \<and> canonical testGuard testTree True ''/srv/data/../../etc/passwd'' = Found [''etc'', ''passwd'']
   \<and> resolve testGuard testTree True ''/srv/data/../../etc/passwd'' = Inl AccessDenied
   \<and> resolve testGuard testTree True ''/srv/data/out/passwd'' = Inl AccessDenied
   \<and> canonical testGuard testTree True ''../../etc/shadow'' = Missing [''etc'', ''shadow'']
   \<and> resolve testGuard testTree True ''../../etc/shadow'' = Inl AccessDenied
   \<and> resolve testGuard testTree False ''../../etc/shadow'' = Inl AccessDenied
   \<and> resolve testGuard testTree True ''/srv/data/nope/x'' = Inl NotFound
   \<and> canonical testGuardLinked testTree True ''passwd'' = Found [''etc'', ''passwd'']
   \<and> resolve testGuardLinked testTree True ''passwd'' = Inl AccessDenied
   \<and> resolve testGuardNoLinks testTree True ''/srv/data/out/passwd'' = Inl AccessDenied
   \<and> canonical testGuard testTree True ''loop'' = TooManyLinks
   \<and> resolve testGuard testTree True ''loop'' = Inl AccessDenied
   \<and> resolve testGuardNoCase testTree True ''/SRV/../etc/passwd'' = Inl AccessDenied
   \<and> allowed testGuardNoCase [''SRV'', ''Data'', ''x'']
   \<and> \<not> allowed testGuardNoCase [''srv'', ''database'']
   \<and> \<not> allowed testGuard [''SRV'', ''Data'', ''x'']"
proof (intro conjI impI)
  show "resolve g t m raw = Inr p
      \<longleftrightarrow> leadsTo t m (maxLinks g) []
            ((if isAbsolute raw then [] else workingDir g) @ splitPath raw) p
          \<and> allowed g p"
    by (simp only: resolve_Inr_iff canonical_leadsTo)
next
  show "resolve g t m raw = Inr p \<longleftrightarrow> canonical g t m raw = Found p \<and> allowed g p"
    by (rule resolve_Inr_iff)
next
  show "resolve g t m raw = Inl AccessDenied
      \<longleftrightarrow> \<not> (\<exists>pl. place (canonical g t m raw) = Some pl \<and> allowed g pl)"
    by (rule resolve_denied_iff)
next
  show "resolve g t m raw = Inl NotFound
      \<longleftrightarrow> (\<exists>p0. canonical g t m raw = Missing p0 \<and> allowed g p0)"
    by (rule resolve_missing_iff)
next
  assume a: "resolve g t m raw' = Inr p'"
  then have c: "canonicalPath t m p'"
    using canonical_canonicalPath [of g t m raw' p'] by (simp add: resolve_Inr_iff)
  then show "canonicalPath t m p'" "clean p'" "linkFree t p'"
    by (simp_all add: canonicalPath_clean [of t m] canonicalPath_linkFree [of t m])
  show "allowed g p'" using a by (simp add: resolve_Inr_iff)
next
  assume a: "canonicalPath t m p'' \<and> noSlash p''"
  then show "canonical g t m (joinPath p'') = Found p''" by (simp add: canonical_join)
  show "resolve g t m (joinPath p'') = (if allowed g p'' then Inr p'' else Inl AccessDenied)"
    using a by (simp only: resolve_join)
next
  assume "\<forall>x. \<not> isLink (t x)"
  then show "place (canonical g t m raw'')
      = Some (lexical [] ((if isAbsolute raw'' then [] else workingDir g) @ splitPath raw''))"
    by (rule canonical_lexical)
next
  assume a: "dirPath t (workingDir g) \<and> length (workingDir g) \<le> Suc n"
  then show eq: "resolve g t m (concat (replicate (Suc n) ''../'') @ r) = resolve g t m (CHR ''/'' # r)"
    by (simp only: resolve_traversal)
  assume "\<not> (\<exists>pl. place (canonical g t m (CHR ''/'' # r)) = Some pl \<and> allowed g pl)"
  then have "resolve g t m (CHR ''/'' # r) = Inl AccessDenied" by (simp add: resolve_denied_iff)
  then show "resolve g t m (concat (replicate (Suc n) ''../'') @ r) = Inl AccessDenied"
    using eq by simp
next
  assume "resolve g t m rawa = Inr pa \<and> maxLinks g \<le> k"
  then show "resolve (g\<lparr>maxLinks := k\<rparr>) t m rawa = Inr pa"
    by (simp add: resolve_more_links)
next
  assume "place (canonical g t m rawd) = Some pd \<and> \<not> allowed g pd"
  then show "resolve (g\<lparr>maxLinks := j\<rparr>) t m rawd = Inl AccessDenied"
    using resolve_denied_any_limit [of g t m rawd pd j] by blast
next
  assume "\<not> caseInsensitive g"
  then show "allowed g q \<longleftrightarrow> (\<exists>d \<in> set (allowedDirs g). length d \<le> length q \<and> take (length d) q = d)"
    by (rule allowed_take)
next
  assume "caseInsensitive g"
  then show "allowed g q \<longleftrightarrow> (\<exists>d \<in> set (allowedDirs g). length d \<le> length q
      \<and> map (map upperByte) (take (length d) q) = map (map upperByte) d)"
    by (rule allowed_take_upper)
next
  show "canonical testGuard testTree True ''/srv/data/../../etc/passwd'' = Found [''etc'', ''passwd'']"
    by code_simp
next
  show "resolve testGuard testTree True ''/srv/data/../../etc/passwd'' = Inl AccessDenied"
    by code_simp
next
  show "resolve testGuard testTree True ''/srv/data/out/passwd'' = Inl AccessDenied"
    by code_simp
next
  show "canonical testGuard testTree True ''../../etc/shadow'' = Missing [''etc'', ''shadow'']"
    by code_simp
next
  show "resolve testGuard testTree True ''../../etc/shadow'' = Inl AccessDenied"
    by code_simp
next
  show "resolve testGuard testTree False ''../../etc/shadow'' = Inl AccessDenied"
    by code_simp
next
  show "resolve testGuard testTree True ''/srv/data/nope/x'' = Inl NotFound"
    by code_simp
next
  show "canonical testGuardLinked testTree True ''passwd'' = Found [''etc'', ''passwd'']"
    by code_simp
next
  show "resolve testGuardLinked testTree True ''passwd'' = Inl AccessDenied"
    by code_simp
next
  show "resolve testGuardNoLinks testTree True ''/srv/data/out/passwd'' = Inl AccessDenied"
    by code_simp
next
  show "canonical testGuard testTree True ''loop'' = TooManyLinks"
    by code_simp
next
  show "resolve testGuard testTree True ''loop'' = Inl AccessDenied"
    by code_simp
next
  show "resolve testGuardNoCase testTree True ''/SRV/../etc/passwd'' = Inl AccessDenied"
    by code_simp
next
  show "allowed testGuardNoCase [''SRV'', ''Data'', ''x'']"
    by code_simp
next
  show "\<not> allowed testGuardNoCase [''srv'', ''database'']"
    by code_simp
next
  show "\<not> allowed testGuard [''SRV'', ''Data'', ''x'']"
    by code_simp
qed

theorem resolve_allowed_only_witness:
  "resolve testGuard testTree True ''sub/./up'' = Inr [''srv'', ''data'', ''notes.txt'']
   \<and> leadsTo testTree True (maxLinks testGuard) []
        ((if isAbsolute ''sub/./up'' then [] else workingDir testGuard) @ splitPath ''sub/./up'')
        [''srv'', ''data'', ''notes.txt'']
   \<and> canonical testGuard testTree True ''sub/./up'' = Found [''srv'', ''data'', ''notes.txt'']
   \<and> canonicalPath testTree True [''srv'', ''data'', ''notes.txt'']
   \<and> clean [''srv'', ''data'', ''notes.txt'']
   \<and> linkFree testTree [''srv'', ''data'', ''notes.txt'']
   \<and> allowed testGuard [''srv'', ''data'', ''notes.txt'']
   \<and> noSlash [''srv'', ''data'', ''notes.txt'']
   \<and> canonical testGuard testTree True ''/srv/data/notes.txt'' = Found [''srv'', ''data'', ''notes.txt'']
   \<and> resolve testGuard testTree True ''/srv/data/notes.txt'' = Inr [''srv'', ''data'', ''notes.txt'']
   \<and> place (canonical testGuard plainTree True ''../../etc/shadow'') = Some [''etc'', ''shadow'']
   \<and> dirPath testTree (workingDir testGuard)
   \<and> length (workingDir testGuard) \<le> Suc 1
   \<and> place (canonical testGuard testTree True ''/etc/passwd'') = Some [''etc'', ''passwd'']
   \<and> \<not> allowed testGuard [''etc'', ''passwd'']
   \<and> resolve testGuard testTree True ''../../etc/passwd''
        = resolve testGuard testTree True ''/etc/passwd''
   \<and> resolve testGuard testTree True ''../../etc/passwd'' = Inl AccessDenied
   \<and> maxLinks testGuard \<le> 1000
   \<and> resolve (testGuard\<lparr>maxLinks := 1000\<rparr>) testTree True ''sub/./up''
        = Inr [''srv'', ''data'', ''notes.txt'']
   \<and> place (canonical testGuard testTree True ''/srv/data/out/passwd'') = Some [''etc'', ''passwd'']
   \<and> resolve (testGuard\<lparr>maxLinks := 0\<rparr>) testTree True ''/srv/data/out/passwd''
        = Inl AccessDenied
   \<and> \<not> caseInsensitive testGuard
   \<and> (\<exists>d \<in> set (allowedDirs testGuard). length d \<le> length [''srv'', ''data'', ''notes.txt'']
         \<and> take (length d) [''srv'', ''data'', ''notes.txt''] = d)
   \<and> caseInsensitive testGuardNoCase
   \<and> allowed testGuardNoCase [''SRV'', ''Data'', ''x'']
   \<and> (\<exists>d \<in> set (allowedDirs testGuardNoCase). length d \<le> length [''SRV'', ''Data'', ''x'']
         \<and> map (map upperByte) (take (length d) [''SRV'', ''Data'', ''x'']) = map (map upperByte) d)"
proof -
  note inst = resolve_allowed_only [where g = testGuard and t = testTree and m = True
      and raw = "''sub/./up''" and p = "[''srv'', ''data'', ''notes.txt'']"
      and raw' = "''sub/./up''" and p' = "[''srv'', ''data'', ''notes.txt'']"
      and p'' = "[''srv'', ''data'', ''notes.txt'']"
      and q = "[''srv'', ''data'', ''notes.txt'']"
      and n = 1 and r = "''etc/passwd''"
      and rawa = "''sub/./up''" and pa = "[''srv'', ''data'', ''notes.txt'']" and k = 1000
      and rawd = "''/srv/data/out/passwd''" and pd = "[''etc'', ''passwd'']" and j = 0]
  note plain = resolve_allowed_only [where g = testGuard and t = plainTree and m = True
      and raw'' = "''../../etc/shadow''"]
  note nocase = resolve_allowed_only [where g = testGuardNoCase
      and q = "[''SRV'', ''Data'', ''x'']"]
  have h1: "resolve testGuard testTree True ''sub/./up'' = Inr [''srv'', ''data'', ''notes.txt'']"
    by code_simp
  have c1: "canonical testGuard testTree True ''sub/./up'' = Found [''srv'', ''data'', ''notes.txt'']"
    using inst h1 by blast
  have c0: "leadsTo testTree True (maxLinks testGuard) []
      ((if isAbsolute ''sub/./up'' then [] else workingDir testGuard) @ splitPath ''sub/./up'')
      [''srv'', ''data'', ''notes.txt'']"
    using inst h1 by blast
  have c2: "canonicalPath testTree True [''srv'', ''data'', ''notes.txt'']
      \<and> clean [''srv'', ''data'', ''notes.txt'']
      \<and> linkFree testTree [''srv'', ''data'', ''notes.txt'']
      \<and> allowed testGuard [''srv'', ''data'', ''notes.txt'']"
    using inst h1 by blast
  have h2: "noSlash [''srv'', ''data'', ''notes.txt'']" by code_simp
  have j: "joinPath [''srv'', ''data'', ''notes.txt''] = ''/srv/data/notes.txt''" by code_simp
  have c3: "canonical testGuard testTree True ''/srv/data/notes.txt'' = Found [''srv'', ''data'', ''notes.txt'']
      \<and> resolve testGuard testTree True ''/srv/data/notes.txt'' = Inr [''srv'', ''data'', ''notes.txt'']"
    using inst c2 h2 unfolding j by simp
  have h3: "\<forall>x. \<not> isLink (plainTree x)" by (simp add: plainTree_def isLink_def)
  have l: "lexical [] ((if isAbsolute ''../../etc/shadow'' then [] else workingDir testGuard)
      @ splitPath ''../../etc/shadow'') = [''etc'', ''shadow'']" by code_simp
  have c4: "place (canonical testGuard plainTree True ''../../etc/shadow'') = Some [''etc'', ''shadow'']"
    using plain h3 unfolding l by blast
  have h4: "dirPath testTree (workingDir testGuard)" by code_simp
  have h5: "length (workingDir testGuard) \<le> Suc 1" by (simp add: testGuard_def)
  have h6a: "place (canonical testGuard testTree True (CHR ''/'' # ''etc/passwd'')) = Some [''etc'', ''passwd'']"
    by code_simp
  have h6b: "\<not> allowed testGuard [''etc'', ''passwd'']" by code_simp
  have h6: "\<not> (\<exists>pl. place (canonical testGuard testTree True (CHR ''/'' # ''etc/passwd'')) = Some pl
      \<and> allowed testGuard pl)"
    using h6a h6b by simp
  have e: "concat (replicate (Suc 1) ''../'') @ ''etc/passwd'' = ''../../etc/passwd''" by simp
  have c5: "resolve testGuard testTree True ''../../etc/passwd''
        = resolve testGuard testTree True (CHR ''/'' # ''etc/passwd'')
      \<and> resolve testGuard testTree True ''../../etc/passwd'' = Inl AccessDenied"
    using inst h4 h5 h6 unfolding e by blast
  have h7: "\<not> caseInsensitive testGuard" by (simp add: testGuard_def)
  have c6: "\<exists>d \<in> set (allowedDirs testGuard). length d \<le> length [''srv'', ''data'', ''notes.txt'']
         \<and> take (length d) [''srv'', ''data'', ''notes.txt''] = d"
    using inst h7 c2 by blast
  have h8: "caseInsensitive testGuardNoCase" by (simp add: testGuardNoCase_def)
  have h9: "allowed testGuardNoCase [''SRV'', ''Data'', ''x'']" by code_simp
  have c7: "\<exists>d \<in> set (allowedDirs testGuardNoCase). length d \<le> length [''SRV'', ''Data'', ''x'']
         \<and> map (map upperByte) (take (length d) [''SRV'', ''Data'', ''x'']) = map (map upperByte) d"
    using nocase h8 h9 by blast
  have h6': "place (canonical testGuard testTree True ''/etc/passwd'') = Some [''etc'', ''passwd'']"
    using h6a by simp
  have h10: "maxLinks testGuard \<le> 1000" by (simp add: testGuard_def)
  have c8: "resolve (testGuard\<lparr>maxLinks := 1000\<rparr>) testTree True ''sub/./up''
      = Inr [''srv'', ''data'', ''notes.txt'']"
    using inst h1 h10 by blast
  have h11: "place (canonical testGuard testTree True ''/srv/data/out/passwd'') = Some [''etc'', ''passwd'']"
    by code_simp
  have c9: "resolve (testGuard\<lparr>maxLinks := 0\<rparr>) testTree True ''/srv/data/out/passwd''
      = Inl AccessDenied"
    using inst h11 h6b by blast
  have c5': "resolve testGuard testTree True ''../../etc/passwd''
        = resolve testGuard testTree True ''/etc/passwd''"
    using c5 by simp
  show ?thesis using h1 c0 c1 c2 h2 c3 c4 h4 h5 h6' h6b c5 c5' h10 c8 h11 c9 h7 c6 h8 h9 c7 by blast
qed

end
